theory Spec2Isabelle
  imports Main "HOL-Library.Multiset"
begin

section \<open>The Azure account facade (packages/azure/src/application/AzureAccount.ts)\<close>

subsection \<open>Data\<close>

text \<open>
  A thrown JavaScript \<^verbatim>\<open>Error\<close> is a value carrying its \<^verbatim>\<open>message\<close>; a method
  that may throw returns \<open>error + 'a\<close>, with \<open>Inl\<close> for the throw.
\<close>

datatype error = Error (message: string)

record Subscription =
  subscriptionId :: string
  displayName :: string

text \<open>
  Everything the facade does that an observer can see, in the order it happens: the
  lines written through \<^verbatim>\<open>this.logger\<close>, the two \<^verbatim>\<open>console\<close> timer calls, and
  the per-subscription queries against the upstream API. A query is in flight from its
  \<open>CallStart\<close> to its \<open>CallEnd\<close>; both carry the subscription id.
\<close>

datatype event =
    LoggerInfo string
  | LoggerWarn string
  | LoggerDebug string
  | ConsoleTime string
  | ConsoleTimeEnd string
  | CallStart string
  | CallEnd string

text \<open>
  The instance: the two private fields \<^verbatim>\<open>credentials\<close> and \<^verbatim>\<open>subscriptionClient\<close>
  (\<open>None\<close> while unassigned), and the trace of what has been observed so far.
  \<open>'c\<close> is the credential object, \<open>'k\<close> the subscription client.
\<close>

record ('c, 'k) AzureAccount =
  credentials :: "'c option"
  subscriptionClient :: "'k option"
  trace :: "event list"

text \<open>
  The part of \<^verbatim>\<open>configLoader().AZURE\<close> that the facade reads. Both entries are
  JavaScript numbers that may be undefined (\<open>None\<close>); the code only tests them for
  truthiness, interpolates them into strings and hands the second one to Ramda.
\<close>

record AZURE =
  CONSUMPTION_CHUNKS_DAYS :: "int option"
  SUBSCRIPTION_CHUNKS :: "int option"

fun truthy :: "int option \<Rightarrow> bool" where
  "truthy None = False"
| "truthy (Some n) = (n \<noteq> 0)"

text \<open>\<^verbatim>\<open>x || 1\<close> on such a number.\<close>

definition or_one :: "int option \<Rightarrow> int option" where
  "or_one x = (if truthy x then x else Some 1)"

text \<open>String conversion, as a template literal does it.\<close>

definition digit :: "nat \<Rightarrow> char" where
  "digit n = ''0123456789'' ! n"

function String_nat :: "nat \<Rightarrow> string" where
  "String_nat n = (if n < 10 then [digit n] else String_nat (n div 10) @ [digit (n mod 10)])"
  by pat_completeness auto
termination
  by (relation "measure (\<lambda>n. n)") auto

definition String_number :: "int option \<Rightarrow> string" where
  "String_number x =
     (case x of
        None \<Rightarrow> ''undefined''
      | Some n \<Rightarrow> (if n < 0 then ''-'' @ String_nat (nat (- n)) else String_nat (nat n)))"

subsection \<open>External collaborators\<close>

text \<open>
  The services the facade calls are not part of this file; each is a parameter of the
  operations below.
  \<^item> \<open>create\<close>: \<^verbatim>\<open>AzureCredentialsProvider.create()\<close>.
  \<^item> \<open>newSubscriptionClient\<close>: \<^verbatim>\<open>new SubscriptionClient(credentials)\<close>.
  \<^item> \<open>listSubscriptions\<close>: \<^verbatim>\<open>subscriptionClient.subscriptions.list()\<close>, iterated to
    exhaustion; a failure of the iterator is \<open>Inl\<close>.
  \<^item> a consumption service: \<^verbatim>\<open>ConsumptionManagementService\<close> built over
    \<^verbatim>\<open>new ConsumptionManagementClient(credentials, subscriptionId)\<close>, asked for
    \<^verbatim>\<open>getEstimates(startDate, endDate, grouping)\<close>. Dates are millisecond
    time stamps; \<open>'g\<close> is the grouping, \<open>'r\<close> an estimation result.
  \<^item> an advisor service: \<^verbatim>\<open>AdvisorRecommendations\<close> built over
    \<^verbatim>\<open>new AdvisorManagementClient(credentials, subscriptionId)\<close>, asked for
    \<^verbatim>\<open>getRecommendations()\<close>.
  \<^item> a scheduler: which of the queries in flight comes back next, chosen by the
    environment from the history so far (taken modulo the number in flight).
\<close>

type_synonym ('c, 'g, 'r) consumption_service =
  "'c option \<Rightarrow> string \<Rightarrow> int \<Rightarrow> int \<Rightarrow> 'g \<Rightarrow> error + 'r list"

type_synonym ('c, 'q) advisor_service =
  "'c option \<Rightarrow> string \<Rightarrow> error + 'q list"

type_synonym scheduler = "event list \<Rightarrow> nat"

subsection \<open>Deferred operations and how they are awaited\<close>

text \<open>
  An \<^verbatim>\<open>async () => { try { return await query } catch (e) { warn; return [] } }\<close>
  closure never rejects. It is represented by what running it does: \<open>issue\<close> is what
  happens synchronously when it is invoked (up to the suspension at its \<^verbatim>\<open>await\<close>),
  \<open>settle\<close> what happens when the awaited query comes back, \<open>outcome\<close> the value its
  promise resolves to.
\<close>

record 'r task =
  issue :: "event list"
  settle :: "event list"
  outcome :: "'r list"

definition emit :: "event list \<Rightarrow> ('c, 'k) AzureAccount \<Rightarrow> ('c, 'k) AzureAccount" where
  "emit es this = this\<lparr>trace := trace this @ es\<rparr>"

text \<open>
  \<^verbatim>\<open>for (const request of requests) { estimationResults.push(await request()) }\<close>:
  each request is invoked and awaited to completion before the next one is invoked.
\<close>

fun await_each ::
  "'r task list \<Rightarrow> ('c, 'k) AzureAccount \<Rightarrow> 'r list list \<times> ('c, 'k) AzureAccount" where
  "await_each [] this = ([], this)"
| "await_each (request # requests) this =
     (let this1 = emit (issue request @ settle request) this;
          (estimationResults, this2) = await_each requests this1
      in (outcome request # estimationResults, this2))"

definition remove_nth :: "nat \<Rightarrow> 'a list \<Rightarrow> 'a list" where
  "remove_nth i xs = take i xs @ drop (Suc i) xs"

text \<open>The queries in flight come back one at a time, in the order the scheduler picks.\<close>

function settle_all :: "scheduler \<Rightarrow> 'r task list \<Rightarrow> event list \<Rightarrow> event list" where
  "settle_all sched inflight tr =
     (if inflight = [] then tr
      else let i = sched tr mod length inflight
           in settle_all sched (remove_nth i inflight) (tr @ settle (inflight ! i)))"
  by pat_completeness auto
termination
proof (relation "measure (\<lambda>(sched, inflight, tr). length inflight)", goal_cases)
  case 1
  show ?case by simp
next
  case (2 sched inflight tr i)
  then have "i < length inflight" by simp
  then show ?case by (simp add: remove_nth_def)
qed

text \<open>
  \<^verbatim>\<open>await Promise.all(requests.map(async (request) => request()))\<close>: \<^verbatim>\<open>map\<close>
  invokes every request in array order before control returns to the event loop, so all
  of them are issued before any settles; the promise resolves, once all have settled, to
  the outcomes in array order.
\<close>

definition Promise_all ::
  "scheduler \<Rightarrow> 'r task list \<Rightarrow> ('c, 'k) AzureAccount \<Rightarrow> 'r list list \<times> ('c, 'k) AzureAccount" where
  "Promise_all sched requests this =
     (map outcome requests,
      this\<lparr>trace := settle_all sched requests (trace this @ concat (map issue requests))\<rparr>)"

text \<open>
  \<^verbatim>\<open>for (const requests of chunkedRequests) { estimationResults.push(await Promise.all(...)) }\<close>
\<close>

fun await_chunks ::
  "scheduler \<Rightarrow> 'r task list list \<Rightarrow> ('c, 'k) AzureAccount
   \<Rightarrow> 'r list list list \<times> ('c, 'k) AzureAccount" where
  "await_chunks sched [] this = ([], this)"
| "await_chunks sched (requests # chunkedRequests) this =
     (let (results, this1) = Promise_all sched requests this;
          (estimationResults, this2) = await_chunks sched chunkedRequests this1
      in (results # estimationResults, this2))"

subsection \<open>Ramda's \<^verbatim>\<open>splitEvery\<close>\<close>

text \<open>
  \<^verbatim>\<open>
  if (n <= 0) throw new Error('First argument to splitEvery must be a positive integer')
  var result = [], idx = 0
  while (idx < list.length) result.push(slice(idx, idx += n, list))
  return result
  \<close>
  The test \<open>0 < n\<close> in the loop is implied by the guard before it; it is there for
  the termination proof only.
\<close>

definition slice :: "nat \<Rightarrow> nat \<Rightarrow> 'a list \<Rightarrow> 'a list" where
  "slice from to xs = take (to - from) (drop from xs)"

function splitEvery_loop :: "nat \<Rightarrow> 'a list \<Rightarrow> nat \<Rightarrow> 'a list list \<Rightarrow> 'a list list" where
  "splitEvery_loop n xs idx result =
     (if idx < length xs \<and> 0 < n
      then splitEvery_loop n xs (idx + n) (result @ [slice idx (idx + n) xs])
      else result)"
  by pat_completeness auto
termination
  by (relation "measure (\<lambda>(n, xs, idx, result). length xs - idx)") auto

definition splitEvery :: "int \<Rightarrow> 'a list \<Rightarrow> error + 'a list list" where
  "splitEvery n xs =
     (if n \<le> 0 then Inl (Error ''First argument to splitEvery must be a positive integer'')
      else Inr (splitEvery_loop (nat n) xs 0 []))"

subsection \<open>The operations\<close>

definition initializeAccount ::
  "(error + 'c) \<Rightarrow> ('c \<Rightarrow> error + 'k) \<Rightarrow> ('c, 'k) AzureAccount
   \<Rightarrow> (error + unit) \<times> ('c, 'k) AzureAccount" where
  "initializeAccount create newSubscriptionClient this =
     (case create of
        Inl e \<Rightarrow> (Inl (Error (''Azure initializeAccount failed. Reason: '' @ message e)), this)
      | Inr c \<Rightarrow>
          (let this1 = this\<lparr>credentials := Some c\<rparr>
           in case newSubscriptionClient c of
                Inl e \<Rightarrow>
                  (Inl (Error (''Azure initializeAccount failed. Reason: '' @ message e)), this1)
              | Inr k \<Rightarrow> (Inr (), this1\<lparr>subscriptionClient := Some k\<rparr>)))"

definition no_subscription_warning :: string where
  "no_subscription_warning =
     ''No subscription returned for these Azure credentials, be sure the registered application has '' @
     ''enough permissions. Go to https://www.cloudcarbonfootprint.org/docs/azure/ for more information.''"

text \<open>
  Reading \<^verbatim>\<open>this.subscriptionClient.subscriptions\<close> on an instance that was never
  initialised throws a \<^verbatim>\<open>TypeError\<close>.
\<close>

definition getSubscriptions ::
  "('k \<Rightarrow> error + Subscription list) \<Rightarrow> ('c, 'k) AzureAccount
   \<Rightarrow> (error + Subscription list) \<times> ('c, 'k) AzureAccount" where
  "getSubscriptions listSubscriptions this =
     (case subscriptionClient this of
        None \<Rightarrow>
          (Inl (Error (''Cannot read properties of undefined (reading '' @ [CHR 0x27] @
             ''subscriptions'' @ [CHR 0x27] @ '')'')), this)
      | Some k \<Rightarrow>
          (case listSubscriptions k of
             Inl e \<Rightarrow> (Inl e, this)
           | Inr subscriptions \<Rightarrow>
               (Inr subscriptions,
                if length subscriptions = 0 then emit [LoggerWarn no_subscription_warning] this
                else this)))"

definition getRecommendationsForSubscription ::
  "('c, 'q) advisor_service \<Rightarrow> ('c, 'k) AzureAccount \<Rightarrow> string \<Rightarrow> error + 'q list" where
  "getRecommendationsForSubscription advisor this subscriptionId' =
     advisor (credentials this) subscriptionId'"

definition getDataForSubscription ::
  "('c, 'g, 'r) consumption_service \<Rightarrow> ('c, 'k) AzureAccount
   \<Rightarrow> int \<Rightarrow> int \<Rightarrow> string \<Rightarrow> 'g \<Rightarrow> error + 'r list" where
  "getDataForSubscription consumption this startDate endDate subscriptionId' grouping =
     consumption (credentials this) subscriptionId' startDate endDate grouping"

text \<open>The closure that \<^verbatim>\<open>getDataFromAdvisorManagement\<close> maps over the subscriptions.\<close>

definition recommendationRequest ::
  "('c, 'q) advisor_service \<Rightarrow> ('c, 'k) AzureAccount \<Rightarrow> Subscription \<Rightarrow> 'q task" where
  "recommendationRequest advisor this subscription =
     \<lparr>issue = [CallStart (subscriptionId subscription)],
      settle = CallEnd (subscriptionId subscription) #
        (case getRecommendationsForSubscription advisor this (subscriptionId subscription) of
           Inr rs \<Rightarrow> []
         | Inl e \<Rightarrow>
             [LoggerWarn (''Unable to get Advisor recommendations data for Azure subscription '' @
                subscriptionId subscription @ '': '' @ message e)]),
      outcome =
        (case getRecommendationsForSubscription advisor this (subscriptionId subscription) of
           Inr rs \<Rightarrow> rs
         | Inl e \<Rightarrow> [])\<rparr>"

definition getDataFromAdvisorManagement ::
  "('k \<Rightarrow> error + Subscription list) \<Rightarrow> ('c, 'q) advisor_service \<Rightarrow> scheduler
   \<Rightarrow> ('c, 'k) AzureAccount \<Rightarrow> (error + 'q list) \<times> ('c, 'k) AzureAccount" where
  "getDataFromAdvisorManagement listSubscriptions advisor sched this =
     (case getSubscriptions listSubscriptions this of
        (Inl e, this1) \<Rightarrow> (Inl e, this1)
      | (Inr subscriptions, this1) \<Rightarrow>
          (let (recommendations, this2) =
                 Promise_all sched (map (recommendationRequest advisor this1) subscriptions) this1
           in (Inr (concat recommendations), this2)))"

definition subscriptionRequest ::
  "('c, 'g, 'r) consumption_service \<Rightarrow> ('c, 'k) AzureAccount \<Rightarrow> int \<Rightarrow> int \<Rightarrow> 'g
   \<Rightarrow> Subscription \<Rightarrow> 'r task" where
  "subscriptionRequest consumption this startDate endDate grouping subscription =
     \<lparr>issue = [LoggerInfo (''Getting data for '' @ displayName subscription @ ''...''),
               CallStart (subscriptionId subscription)],
      settle = CallEnd (subscriptionId subscription) #
        (case getDataForSubscription consumption this startDate endDate
                (subscriptionId subscription) grouping of
           Inr rs \<Rightarrow> []
         | Inl e \<Rightarrow>
             [LoggerWarn (''Unable to get estimate data for Azure subscription '' @
                subscriptionId subscription @ '': '' @ message e)]),
      outcome =
        (case getDataForSubscription consumption this startDate endDate
                (subscriptionId subscription) grouping of
           Inr rs \<Rightarrow> rs
         | Inl e \<Rightarrow> [])\<rparr>"

definition createSubscriptionRequests ::
  "('c, 'g, 'r) consumption_service \<Rightarrow> ('c, 'k) AzureAccount \<Rightarrow> Subscription list
   \<Rightarrow> int \<Rightarrow> int \<Rightarrow> 'g \<Rightarrow> 'r task list" where
  "createSubscriptionRequests consumption this subscriptions startDate endDate grouping =
     map (subscriptionRequest consumption this startDate endDate grouping) subscriptions"

text \<open>The debug line and the two timer labels, character for character.\<close>

definition chunks_debug_message :: "AZURE \<Rightarrow> string" where
  "chunks_debug_message cfg =
     ''Fetching Azure consumption data with '' @ String_number (SUBSCRIPTION_CHUNKS cfg) @
     ''} 1} chunk(s)''"

definition console_time_label :: "AZURE \<Rightarrow> string" where
  "console_time_label cfg =
     ''Azure Subscriptions: '' @ String_number (SUBSCRIPTION_CHUNKS cfg) @ '' chunk(s)''"

definition console_timeEnd_label :: "AZURE \<Rightarrow> string" where
  "console_timeEnd_label cfg =
     ''Azure Subscriptions: '' @ String_number (or_one (SUBSCRIPTION_CHUNKS cfg)) @ '' chunk(s)''"

text \<open>
  \<^verbatim>\<open>AZURE.SUBSCRIPTION_CHUNKS ? R.splitEvery(AZURE.SUBSCRIPTION_CHUNKS, requests) : [requests]\<close>
\<close>

definition chunkRequests :: "AZURE \<Rightarrow> 'a list \<Rightarrow> error + 'a list list" where
  "chunkRequests cfg requests =
     (case SUBSCRIPTION_CHUNKS cfg of
        None \<Rightarrow> Inr [requests]
      | Some n \<Rightarrow> (if truthy (Some n) then splitEvery n requests else Inr [requests]))"

definition getDataFromConsumptionManagement ::
  "('k \<Rightarrow> error + Subscription list) \<Rightarrow> ('c, 'g, 'r) consumption_service \<Rightarrow> AZURE \<Rightarrow> scheduler
   \<Rightarrow> int \<Rightarrow> int \<Rightarrow> 'g \<Rightarrow> ('c, 'k) AzureAccount
   \<Rightarrow> (error + 'r list) \<times> ('c, 'k) AzureAccount" where
  "getDataFromConsumptionManagement listSubscriptions consumption cfg sched
       startDate endDate grouping this =
     (case getSubscriptions listSubscriptions this of
        (Inl e, this1) \<Rightarrow> (Inl e, this1)
      | (Inr subscriptions, this1) \<Rightarrow>
          (let requests =
                 createSubscriptionRequests consumption this1 subscriptions startDate endDate grouping
           in if truthy (CONSUMPTION_CHUNKS_DAYS cfg)
              then (let (estimationResults, this2) = await_each requests this1
                    in (Inr (concat estimationResults), this2))
              else (case chunkRequests cfg requests of
                      Inl e \<Rightarrow> (Inl e, this1)
                    | Inr chunkedRequests \<Rightarrow>
                        (let this2 = emit [LoggerDebug (chunks_debug_message cfg),
                                           ConsoleTime (console_time_label cfg)] this1;
                             (estimationResults, this3) = await_chunks sched chunkedRequests this2;
                             this4 = emit [ConsoleTimeEnd (console_timeEnd_label cfg)] this3
                         in (Inr (concat (concat estimationResults)), this4)))))"

subsection \<open>Observations on a trace\<close>

text \<open>What an operation added to the trace.\<close>

definition emitted :: "('c, 'k) AzureAccount \<Rightarrow> ('c, 'k) AzureAccount \<Rightarrow> event list" where
  "emitted this this' = drop (length (trace this)) (trace this')"

text \<open>The upstream queries of a trace, without the log lines around them.\<close>

fun is_call :: "event \<Rightarrow> bool" where
  "is_call (CallStart sid) = True"
| "is_call (CallEnd sid) = True"
| "is_call ev = False"

definition calls :: "event list \<Rightarrow> event list" where
  "calls es = filter is_call es"

text \<open>
  An instrumented API client: it counts the queries in flight and remembers the largest
  count it has seen.
\<close>

fun hwm_step :: "nat \<times> nat \<Rightarrow> event \<Rightarrow> nat \<times> nat" where
  "hwm_step (inflight, high) (CallStart sid) = (Suc inflight, max high (Suc inflight))"
| "hwm_step (inflight, high) (CallEnd sid) = (inflight - 1, high)"
| "hwm_step (inflight, high) ev = (inflight, high)"

definition high_water_mark :: "event list \<Rightarrow> nat" where
  "high_water_mark es = snd (foldl hwm_step (0, 0) es)"

text \<open>
  The barrier between batches of size \<open>k\<close>: the query issued as number \<open>i\<close> (from 0)
  belongs to batch \<open>i div k\<close>, and when it is issued all \<open>k * (i div k)\<close> queries of the
  batches before it must have come back.
\<close>

fun barrier_step :: "nat \<Rightarrow> nat \<times> nat \<times> bool \<Rightarrow> event \<Rightarrow> nat \<times> nat \<times> bool" where
  "barrier_step k (issued, resolved, ok) (CallStart sid) =
     (Suc issued, resolved, ok \<and> k * (issued div k) \<le> resolved)"
| "barrier_step k (issued, resolved, ok) (CallEnd sid) = (issued, Suc resolved, ok)"
| "barrier_step k (issued, resolved, ok) ev = (issued, resolved, ok)"

definition batch_barrier_respected :: "nat \<Rightarrow> event list \<Rightarrow> bool" where
  "batch_barrier_respected k es = snd (snd (foldl (barrier_step k) (0, 0, True) es))"

text \<open>
  The queries of a trace run batch after batch: for each batch of subscription ids in turn,
  first the starts of exactly these ids, in the order of the batch, then the ends of exactly
  these ids, in any order, and nothing else before the next batch.
\<close>

fun is_start :: "event \<Rightarrow> bool" where
  "is_start (CallStart sid) = True"
| "is_start ev = False"

fun batches_run :: "string list list \<Rightarrow> event list \<Rightarrow> bool" where
  "batches_run [] es = (es = [])"
| "batches_run (b # bs) es =
     (take (length b) es = map CallStart b \<and>
      mset (take (length b) (drop (length b) es)) = mset (map CallEnd b) \<and>
      batches_run bs (drop (2 * length b) es))"

text \<open>
  The sizes of consecutive batches of \<open>k\<close> out of \<open>n\<close> tasks: full batches, then a
  shorter last one when \<open>k\<close> does not divide \<open>n\<close>.
\<close>

definition batch_sizes :: "nat \<Rightarrow> nat \<Rightarrow> nat list" where
  "batch_sizes k n = replicate (n div k) k @ (if n mod k = 0 then [] else [n mod k])"

text \<open>
  The batch size is unset or not negative. (Zero is falsy and is treated as unset; Ramda
  rejects a negative one.)
\<close>

definition batch_size_ok :: "AZURE \<Rightarrow> bool" where
  "batch_size_ok cfg = (case SUBSCRIPTION_CHUNKS cfg of None \<Rightarrow> True | Some n \<Rightarrow> 0 \<le> n)"

text \<open>What \<^verbatim>\<open>getSubscriptions\<close> logs when it returns the given subscriptions.\<close>

definition listing_warning :: "Subscription list \<Rightarrow> event list" where
  "listing_warning subs = (if subs = [] then [LoggerWarn no_subscription_warning] else [])"

text \<open>A task that runs exactly one upstream query.\<close>

definition single_query :: "'r task \<Rightarrow> bool" where
  "single_query t = (\<exists>sid. calls (issue t) = [CallStart sid] \<and> calls (settle t) = [CallEnd sid])"

text \<open>
  A trace made of one segment per batch: every task of the batch issued, in array order,
  then every task of the batch settled, in some order.
\<close>

fun batched :: "('a \<Rightarrow> 'r task) \<Rightarrow> 'a list list \<Rightarrow> event list \<Rightarrow> bool" where
  "batched f [] es = (es = [])"
| "batched f (b # bs) es =
     (\<exists>order rest. mset order = mset b \<and>
        es = concat (map (\<lambda>x. issue (f x)) b) @ concat (map (\<lambda>x. settle (f x)) order) @ rest \<and>
        batched f bs rest)"

subsection \<open>Example inputs\<close>

definition sub :: "string \<Rightarrow> Subscription" where
  "sub sid = \<lparr>subscriptionId = sid, displayName = ''Subscription '' @ sid\<rparr>"

text \<open>An initialised instance with nothing observed yet.\<close>

definition account0 :: "(unit, unit) AzureAccount" where
  "account0 = \<lparr>credentials = Some (), subscriptionClient = Some (), trace = []\<rparr>"

text \<open>A consumption service that answers every subscription with two rows.\<close>

definition usage_rows :: "(unit, unit, string) consumption_service" where
  "usage_rows cred sid startDate endDate grouping = Inr [sid @ ''-1'', sid @ ''-2'']"

text \<open>The same, but the query for subscription B is rejected.\<close>

definition usage_rows_B_fails :: "(unit, unit, string) consumption_service" where
  "usage_rows_B_fails cred sid startDate endDate grouping =
     (if sid = ''B'' then Inl (Error ''throttled'') else Inr [sid @ ''-1'', sid @ ''-2''])"

definition advice_B_fails :: "(unit, string) advisor_service" where
  "advice_B_fails cred sid =
     (if sid = ''B'' then Inl (Error ''forbidden'') else Inr [''resize '' @ sid])"

text \<open>A scheduler under which the query issued last comes back first.\<close>

definition last_first :: scheduler where
  "last_first tr = fst (foldl hwm_step (0, 0) tr) - 1"

declare splitEvery_loop.simps [simp del]
declare settle_all.simps [simp del]
declare String_nat.simps [simp del]

section \<open>Properties\<close>

subsection \<open>The loops\<close>


lemma emit_fields [simp]:
  "credentials (emit es this) = credentials this"
  "subscriptionClient (emit es this) = subscriptionClient this"
  "trace (emit es this) = trace this @ es"
  by (simp_all add: emit_def)

lemma await_each_fst: "fst (await_each requests this) = map outcome requests"
  by (induction requests arbitrary: this) (simp_all add: Let_def split_beta)

lemma await_each_trace:
  "trace (snd (await_each requests this)) =
     trace this @ concat (map (\<lambda>request. issue request @ settle request) requests)"
  by (induction requests arbitrary: this) (simp_all add: Let_def split_beta)

lemma await_each_fields:
  "credentials (snd (await_each requests this)) = credentials this \<and>
   subscriptionClient (snd (await_each requests this)) = subscriptionClient this"
  by (induction requests arbitrary: this) (simp_all add: Let_def split_beta)

lemma mset_remove_nth:
  "i < length xs \<Longrightarrow> add_mset (xs ! i) (mset (remove_nth i xs)) = mset xs"
proof -
  assume "i < length xs"
  then have "xs = take i xs @ xs ! i # drop (Suc i) xs"
    by (rule id_take_nth_drop)
  then have "mset xs = mset (take i xs @ xs ! i # drop (Suc i) xs)"
    by simp
  then show ?thesis
    by (simp add: remove_nth_def)
qed

lemma remove_nth_map: "remove_nth i (map f xs) = map f (remove_nth i xs)"
  by (simp add: remove_nth_def take_map drop_map)

lemma length_remove_nth: "i < length xs \<Longrightarrow> length (remove_nth i xs) = length xs - 1"
  by (simp add: remove_nth_def)

lemma settle_all_map:
  "\<exists>order. mset order = mset xs \<and>
     settle_all sched (map f xs) tr = tr @ concat (map (\<lambda>x. settle (f x)) order)"
proof (induction "length xs" arbitrary: xs tr)
  case 0
  then show ?case by (subst settle_all.simps) simp
next
  case (Suc n)
  define i where "i = sched tr mod length xs"
  have ne: "xs \<noteq> []" using Suc.hyps(2) by auto
  then have i: "i < length xs" by (simp add: i_def)
  have "n = length (remove_nth i xs)"
    using Suc.hyps(2) i by (simp add: length_remove_nth)
  from Suc.hyps(1) [OF this, of "tr @ settle (f (xs ! i))"]
  obtain order where o: "mset order = mset (remove_nth i xs)"
    and s: "settle_all sched (map f (remove_nth i xs)) (tr @ settle (f (xs ! i))) =
          (tr @ settle (f (xs ! i))) @ concat (map (\<lambda>x. settle (f x)) order)"
    by blast
  have "settle_all sched (map f xs) tr =
        settle_all sched (remove_nth i (map f xs)) (tr @ settle (map f xs ! i))"
    using ne by (subst settle_all.simps) (simp add: i_def Let_def)
  also have "\<dots> = tr @ concat (map (\<lambda>x. settle (f x)) (xs ! i # order))"
    using s i by (simp add: remove_nth_map)
  finally have "settle_all sched (map f xs) tr = tr @ concat (map (\<lambda>x. settle (f x)) (xs ! i # order))" .
  moreover have "mset (xs ! i # order) = mset xs"
    using o mset_remove_nth [OF i] by simp
  ultimately show ?case by blast
qed

lemma Promise_all_fst: "fst (Promise_all sched requests this) = map outcome requests"
  by (simp add: Promise_all_def)

lemma Promise_all_fields:
  "credentials (snd (Promise_all sched requests this)) = credentials this \<and>
   subscriptionClient (snd (Promise_all sched requests this)) = subscriptionClient this"
  by (simp add: Promise_all_def)

lemma Promise_all_trace:
  "\<exists>order. mset order = mset xs \<and>
     trace (snd (Promise_all sched (map f xs) this)) =
       trace this @ concat (map (\<lambda>x. issue (f x)) xs) @ concat (map (\<lambda>x. settle (f x)) order)"
proof -
  obtain order where "mset order = mset xs"
    and "settle_all sched (map f xs) (trace this @ concat (map issue (map f xs))) =
         (trace this @ concat (map issue (map f xs))) @ concat (map (\<lambda>x. settle (f x)) order)"
    using settle_all_map [of xs sched f] by blast
  then show ?thesis
    by (auto simp: Promise_all_def comp_def)
qed

lemma await_chunks_fst: "fst (await_chunks sched chunks this) = map (map outcome) chunks"
  by (induction chunks arbitrary: this)
     (simp_all add: Let_def split_beta Promise_all_def)

lemma await_chunks_fields:
  "credentials (snd (await_chunks sched chunks this)) = credentials this \<and>
   subscriptionClient (snd (await_chunks sched chunks this)) = subscriptionClient this"
  by (induction chunks arbitrary: this)
     (simp_all add: Let_def split_beta Promise_all_def)

subsection \<open>Cutting into batches\<close>

lemma batch_sizes_step:
  assumes "0 < k" "0 < m"
  shows "batch_sizes k m = min k m # batch_sizes k (m - k)"
proof (cases "k \<le> m")
  case True
  then have "m div k = Suc ((m - k) div k)" "m mod k = (m - k) mod k"
    using assms by (simp_all add: le_div_geq le_mod_geq)
  then show ?thesis using True by (simp add: batch_sizes_def)
next
  case False
  then show ?thesis using assms by (simp add: batch_sizes_def)
qed

lemma splitEvery_loop_concat:
  "0 < n \<Longrightarrow> concat (splitEvery_loop n xs idx result) = concat result @ drop idx xs"
proof (induction n xs idx result rule: splitEvery_loop.induct)
  case (1 n xs idx result)
  show ?case
  proof (cases "idx < length xs")
    case True
    have "take n (drop idx xs) @ drop (idx + n) xs = drop idx xs"
      by (metis add.commute append_take_drop_id drop_drop)
    then show ?thesis
      using True 1 by (subst splitEvery_loop.simps) (simp add: slice_def)
  next
    case False
    then show ?thesis by (subst splitEvery_loop.simps) simp
  qed
qed

lemma splitEvery_loop_lengths:
  "0 < n \<Longrightarrow> map length (splitEvery_loop n xs idx result) =
     map length result @ batch_sizes n (length xs - idx)"
proof (induction n xs idx result rule: splitEvery_loop.induct)
  case (1 n xs idx result)
  show ?case
  proof (cases "idx < length xs")
    case True
    then have "batch_sizes n (length xs - idx) =
        min n (length xs - idx) # batch_sizes n (length xs - idx - n)"
      using 1(2) by (simp add: batch_sizes_step)
    then show ?thesis
      using True 1 by (subst splitEvery_loop.simps) (simp add: slice_def min.commute)
  next
    case False
    then show ?thesis by (subst splitEvery_loop.simps) (simp add: batch_sizes_def)
  qed
qed

lemma splitEvery_loop_map:
  "splitEvery_loop n (map f xs) idx (map (map f) result) =
     map (map f) (splitEvery_loop n xs idx result)"
proof (induction n xs idx result rule: splitEvery_loop.induct)
  case (1 n xs idx result)
  show ?case
  proof (cases "idx < length xs \<and> 0 < n")
    case True
    have "splitEvery_loop n (map f xs) idx (map (map f) result) =
          splitEvery_loop n (map f xs) (idx + n) (map (map f) (result @ [slice idx (idx + n) xs]))"
      using True by (subst splitEvery_loop.simps) (simp add: slice_def take_map drop_map)
    also have "\<dots> = map (map f) (splitEvery_loop n xs (idx + n) (result @ [slice idx (idx + n) xs]))"
      using True 1 by simp
    also have "\<dots> = map (map f) (splitEvery_loop n xs idx result)"
      using True by (subst (2) splitEvery_loop.simps) simp
    finally show ?thesis .
  next
    case False
    then show ?thesis
      by (subst splitEvery_loop.simps, subst (2) splitEvery_loop.simps) auto
  qed
qed

subsection \<open>The monitors on the segments of a trace\<close>

lemma hwm_calls: "foldl hwm_step s (calls es) = foldl hwm_step s es"
proof (induction es arbitrary: s)
  case Nil
  show ?case by (simp add: calls_def)
next
  case (Cons ev es)
  obtain c h where s: "s = (c, h)" by (cases s)
  show ?case using Cons [unfolded calls_def] by (cases ev) (simp_all add: calls_def s)
qed

lemma barrier_calls: "foldl (barrier_step k) s (calls es) = foldl (barrier_step k) s es"
proof (induction es arbitrary: s)
  case Nil
  show ?case by (simp add: calls_def)
next
  case (Cons ev es)
  obtain i r ok where s: "s = (i, r, ok)" by (cases s)
  show ?case using Cons [unfolded calls_def] by (cases ev) (simp_all add: calls_def s)
qed

lemma hwm_issue:
  "single_query t \<Longrightarrow> foldl hwm_step (c, h) (issue t) = (Suc c, max h (Suc c))"
  using hwm_calls [of "(c, h)" "issue t"] by (auto simp: single_query_def)

lemma hwm_settle:
  "single_query t \<Longrightarrow> foldl hwm_step (c, h) (settle t) = (c - 1, h)"
  using hwm_calls [of "(c, h)" "settle t"] by (auto simp: single_query_def)

lemma hwm_issues:
  "\<forall>x \<in> set xs. single_query (f x) \<Longrightarrow>
   foldl hwm_step (c, h) (concat (map (\<lambda>x. issue (f x)) xs)) =
     (c + length xs, if xs = [] then h else max h (c + length xs))"
proof (induction xs arbitrary: c h)
  case Nil
  show ?case by simp
next
  case (Cons x xs)
  then show ?case by (simp add: hwm_issue max.assoc)
qed

lemma hwm_settles:
  "\<forall>x \<in> set xs. single_query (f x) \<Longrightarrow>
   foldl hwm_step (c, h) (concat (map (\<lambda>x. settle (f x)) xs)) = (c - length xs, h)"
proof (induction xs arbitrary: c h)
  case Nil
  show ?case by simp
next
  case (Cons x xs)
  then show ?case by (simp add: hwm_settle)
qed

lemma barrier_issue:
  "single_query t \<Longrightarrow> foldl (barrier_step k) (i, r, ok) (issue t) =
     (Suc i, r, ok \<and> k * (i div k) \<le> r)"
  using barrier_calls [of k "(i, r, ok)" "issue t"] by (auto simp: single_query_def)

lemma barrier_settle:
  "single_query t \<Longrightarrow> foldl (barrier_step k) (i, r, ok) (settle t) = (i, Suc r, ok)"
  using barrier_calls [of k "(i, r, ok)" "settle t"] by (auto simp: single_query_def)

lemma barrier_issues:
  "\<forall>x \<in> set xs. single_query (f x) \<Longrightarrow> \<forall>j < length xs. k * ((i + j) div k) \<le> r \<Longrightarrow>
   foldl (barrier_step k) (i, r, ok) (concat (map (\<lambda>x. issue (f x)) xs)) = (i + length xs, r, ok)"
proof (induction xs arbitrary: i)
  case Nil
  show ?case by simp
next
  case (Cons x xs)
  have "k * (i div k) \<le> r" using Cons.prems(2) by fastforce
  moreover have "\<forall>j < length xs. k * ((Suc i + j) div k) \<le> r"
    using Cons.prems(2) by fastforce
  ultimately show ?case using Cons by (simp add: barrier_issue)
qed

lemma barrier_settles:
  "\<forall>x \<in> set xs. single_query (f x) \<Longrightarrow>
   foldl (barrier_step k) (i, r, ok) (concat (map (\<lambda>x. settle (f x)) xs)) = (i, r + length xs, ok)"
proof (induction xs arbitrary: r)
  case Nil
  show ?case by simp
next
  case (Cons x xs)
  then show ?case by (simp add: barrier_settle)
qed

lemma batch_hwm:
  assumes "mset order = mset b" "\<forall>x \<in> set b. single_query (f x)"
  shows "foldl hwm_step (0, h)
           (concat (map (\<lambda>x. issue (f x)) b) @ concat (map (\<lambda>x. settle (f x)) order)) =
         (0, max h (length b))"
proof -
  have "set order = set b" "length order = length b"
    using assms(1) by (metis mset_eq_setD, metis mset_eq_length)
  then have o: "\<forall>x \<in> set order. single_query (f x)" using assms(2) by simp
  show ?thesis
    using \<open>length order = length b\<close>
    by (simp add: hwm_issues [OF assms(2)] hwm_settles [OF o])
qed

lemma batch_barrier:
  assumes "mset order = mset b" "\<forall>x \<in> set b. single_query (f x)" "length b \<le> k"
  shows "foldl (barrier_step k) (n * k, n * k, ok)
           (concat (map (\<lambda>x. issue (f x)) b) @ concat (map (\<lambda>x. settle (f x)) order)) =
         (n * k + length b, n * k + length b, ok)"
proof -
  have "set order = set b" "length order = length b"
    using assms(1) by (metis mset_eq_setD, metis mset_eq_length)
  then have o: "\<forall>x \<in> set order. single_query (f x)" using assms(2) by simp
  have "\<forall>j < length b. k * ((n * k + j) div k) \<le> n * k"
    using assms(3) by (auto simp: mult.commute)
  from barrier_issues [OF assms(2) this]
  show ?thesis
    using \<open>length order = length b\<close> by (simp add: barrier_settles [OF o])
qed

lemma hwm_batched:
  "batched f bs es \<Longrightarrow> \<forall>b \<in> set bs. \<forall>x \<in> set b. single_query (f x) \<Longrightarrow>
   foldl hwm_step (0, h) es = (0, foldl max h (map length bs))"
proof (induction bs arbitrary: es h)
  case Nil
  then show ?case by simp
next
  case (Cons b bs)
  from Cons.prems(1) obtain order rest where o: "mset order = mset b"
    and es: "es = (concat (map (\<lambda>x. issue (f x)) b) @ concat (map (\<lambda>x. settle (f x)) order)) @ rest"
    and r: "batched f bs rest"
    by auto
  have b: "\<forall>x \<in> set b. single_query (f x)" using Cons.prems(2) by simp
  have bs: "\<forall>b \<in> set bs. \<forall>x \<in> set b. single_query (f x)" using Cons.prems(2) by simp
  have "foldl hwm_step (0, h) es =
        foldl hwm_step (foldl hwm_step (0, h)
          (concat (map (\<lambda>x. issue (f x)) b) @ concat (map (\<lambda>x. settle (f x)) order))) rest"
    unfolding es by (rule foldl_append)
  also have "\<dots> = foldl hwm_step (0, max h (length b)) rest"
    by (simp only: batch_hwm [OF o b])
  also have "\<dots> = (0, foldl max (max h (length b)) (map length bs))"
    by (rule Cons.IH [OF r bs])
  finally show ?case by simp
qed

lemma barrier_batched:
  assumes "0 < k" "r < k"
  shows "batched f bs es \<Longrightarrow> \<forall>b \<in> set bs. \<forall>x \<in> set b. single_query (f x) \<Longrightarrow>
   map length bs = replicate q k @ (if r = 0 then [] else [r]) \<Longrightarrow>
   foldl (barrier_step k) (n * k, n * k, ok) es =
     (n * k + length (concat bs), n * k + length (concat bs), ok)"
proof (induction bs arbitrary: es n q)
  case Nil
  then show ?case by simp
next
  case (Cons b bs)
  from Cons.prems(1) obtain order rest where o: "mset order = mset b"
    and es: "es = (concat (map (\<lambda>x. issue (f x)) b) @ concat (map (\<lambda>x. settle (f x)) order)) @ rest"
    and rest: "batched f bs rest"
    by auto
  have b: "\<forall>x \<in> set b. single_query (f x)" using Cons.prems(2) by simp
  have bs: "\<forall>b \<in> set bs. \<forall>x \<in> set b. single_query (f x)" using Cons.prems(2) by simp
  show ?case
  proof (cases q)
    case 0
    then have lb: "length b = r" and e: "bs = []"
      using Cons.prems(3) by (auto split: if_splits)
    then have "rest = []" using rest by simp
    moreover have "length b \<le> k" using lb assms(2) by simp
    ultimately show ?thesis
      unfolding es using batch_barrier [OF o b] e by simp
  next
    case (Suc q')
    then have lb: "length b = k"
      and ls: "map length bs = replicate q' k @ (if r = 0 then [] else [r])"
      using Cons.prems(3) by simp_all
    have "foldl (barrier_step k) (Suc n * k, Suc n * k, ok) rest =
          (Suc n * k + length (concat bs), Suc n * k + length (concat bs), ok)"
      by (rule Cons.IH [OF rest bs ls])
    moreover have "foldl (barrier_step k) (n * k, n * k, ok)
           (concat (map (\<lambda>x. issue (f x)) b) @ concat (map (\<lambda>x. settle (f x)) order)) =
         (Suc n * k, Suc n * k, ok)"
      using batch_barrier [OF o b, of k n ok] lb by (simp add: add.commute)
    ultimately show ?thesis
      unfolding es foldl_append using lb by (simp add: add.commute add.left_commute)
  qed
qed

lemma await_chunks_batched:
  "\<exists>new. trace (snd (await_chunks sched (map (map f) bs) this)) = trace this @ new \<and>
         batched f bs new"
proof (induction bs arbitrary: this)
  case Nil
  show ?case by simp
next
  case (Cons b bs)
  define this1 where "this1 = snd (Promise_all sched (map f b) this)"
  obtain order where o: "mset order = mset b"
    and t1: "trace this1 = trace this @ concat (map (\<lambda>x. issue (f x)) b) @
               concat (map (\<lambda>x. settle (f x)) order)"
    using Promise_all_trace [of b sched f this] by (auto simp: this1_def)
  obtain new where t2: "trace (snd (await_chunks sched (map (map f) bs) this1)) = trace this1 @ new"
    and n: "batched f bs new"
    using Cons [of this1] by blast
  have "snd (await_chunks sched (map (map f) (b # bs)) this) =
        snd (await_chunks sched (map (map f) bs) this1)"
    by (simp add: split_beta this1_def)
  then have "trace (snd (await_chunks sched (map (map f) (b # bs)) this)) =
      trace this @ (concat (map (\<lambda>x. issue (f x)) b) @ concat (map (\<lambda>x. settle (f x)) order) @ new)"
    using t1 t2 by simp
  moreover have "batched f (b # bs)
      (concat (map (\<lambda>x. issue (f x)) b) @ concat (map (\<lambda>x. settle (f x)) order) @ new)"
    using o n by auto
  ultimately show ?case by blast
qed

lemma foldl_max_replicate: "foldl max h (replicate q k) = (if q = 0 then h else max h k)"
  by (induction q arbitrary: h) (auto simp: max_def)

lemma foldl_max_batch_sizes: "0 < k \<Longrightarrow> foldl max 0 (batch_sizes k n) = min k n"
proof -
  assume k: "0 < k"
  show ?thesis
  proof (cases "n < k")
    case True
    then show ?thesis by (simp add: batch_sizes_def)
  next
    case False
    then have "0 < n div k" using k by (simp add: div_greater_zero_iff)
    moreover have "n mod k < k" using k by simp
    ultimately show ?thesis
      using False by (simp add: batch_sizes_def foldl_max_replicate)
  qed
qed

subsection \<open>Result and trace of the operations\<close>

lemma getSubscriptions_ok:
  "fst (getSubscriptions listSubscriptions this) = Inr subs \<Longrightarrow>
   getSubscriptions listSubscriptions this = (Inr subs, emit (listing_warning subs) this)"
  by (auto simp: getSubscriptions_def listing_warning_def emit_def split: option.splits sum.splits)

lemma getSubscriptions_fields:
  "credentials (snd (getSubscriptions listSubscriptions this)) = credentials this \<and>
   subscriptionClient (snd (getSubscriptions listSubscriptions this)) = subscriptionClient this"
  by (simp add: getSubscriptions_def split: option.splits sum.splits)

lemma subscriptionRequest_credentials:
  "credentials a = credentials b \<Longrightarrow>
   subscriptionRequest consumption a sd ed g = subscriptionRequest consumption b sd ed g"
  by (rule ext) (simp add: subscriptionRequest_def getDataForSubscription_def)

lemma recommendationRequest_credentials:
  "credentials a = credentials b \<Longrightarrow>
   recommendationRequest advisor a = recommendationRequest advisor b"
  by (rule ext) (simp add: recommendationRequest_def getRecommendationsForSubscription_def)

lemma single_query_subscriptionRequest:
  "single_query (subscriptionRequest consumption this sd ed g s)"
  by (simp add: single_query_def subscriptionRequest_def calls_def split: sum.splits)

lemma single_query_recommendationRequest:
  "single_query (recommendationRequest advisor this s)"
  by (simp add: single_query_def recommendationRequest_def calls_def split: sum.splits)

lemma chunkRequests_map:
  "chunkRequests cfg (map f xs) =
     (case chunkRequests cfg xs of Inl e \<Rightarrow> Inl e | Inr bs \<Rightarrow> Inr (map (map f) bs))"
  using splitEvery_loop_map [of _ f xs 0 "[]"]
  by (simp add: chunkRequests_def splitEvery_def split: option.splits)

lemma chunkRequests_ok:
  "batch_size_ok cfg \<Longrightarrow> \<exists>bs. chunkRequests cfg xs = Inr bs \<and> concat bs = xs"
  by (auto simp: batch_size_ok_def chunkRequests_def splitEvery_def splitEvery_loop_concat
      split: option.splits)

lemma consumption_sequential:
  fixes consumption sd ed g sched
  assumes "fst (getSubscriptions listSubscriptions this) = Inr subs"
    and "truthy (CONSUMPTION_CHUNKS_DAYS cfg)"
  defines "req \<equiv> subscriptionRequest consumption this sd ed g"
  defines "this' \<equiv> getDataFromConsumptionManagement listSubscriptions consumption cfg sched sd ed g this"
  shows "fst this' = Inr (concat (map (\<lambda>s. outcome (req s)) subs))"
    and "trace (snd this') = trace this @ listing_warning subs @
           concat (map (\<lambda>s. issue (req s) @ settle (req s)) subs)"
proof -
  have gs: "getSubscriptions listSubscriptions this = (Inr subs, emit (listing_warning subs) this)"
    using assms(1) by (rule getSubscriptions_ok)
  have r: "subscriptionRequest consumption (emit (listing_warning subs) this) sd ed g = req"
    unfolding req_def by (rule subscriptionRequest_credentials) simp
  show "fst this' = Inr (concat (map (\<lambda>s. outcome (req s)) subs))"
    using assms(2)
    by (simp add: this'_def getDataFromConsumptionManagement_def gs
        createSubscriptionRequests_def r split_beta await_each_fst comp_def Let_def)
  show "trace (snd this') = trace this @ listing_warning subs @
           concat (map (\<lambda>s. issue (req s) @ settle (req s)) subs)"
    using assms(2)
    by (simp add: this'_def getDataFromConsumptionManagement_def gs
        createSubscriptionRequests_def r split_beta await_each_trace comp_def Let_def)
qed

lemma consumption_batched:
  fixes consumption sd ed g sched
  assumes "fst (getSubscriptions listSubscriptions this) = Inr subs"
    and "\<not> truthy (CONSUMPTION_CHUNKS_DAYS cfg)" "chunkRequests cfg subs = Inr bs"
  defines "req \<equiv> subscriptionRequest consumption this sd ed g"
  defines "this' \<equiv> getDataFromConsumptionManagement listSubscriptions consumption cfg sched sd ed g this"
  shows "fst this' = Inr (concat (map (\<lambda>s. outcome (req s)) (concat bs)))"
    and "\<exists>new. batched req bs new \<and>
           trace (snd this') = trace this @ listing_warning subs @
             [LoggerDebug (chunks_debug_message cfg), ConsoleTime (console_time_label cfg)] @
             new @ [ConsoleTimeEnd (console_timeEnd_label cfg)]"
proof -
  have gs: "getSubscriptions listSubscriptions this = (Inr subs, emit (listing_warning subs) this)"
    using assms(1) by (rule getSubscriptions_ok)
  define this2 where "this2 = emit [LoggerDebug (chunks_debug_message cfg),
      ConsoleTime (console_time_label cfg)] (emit (listing_warning subs) this)"
  have r: "subscriptionRequest consumption (emit (listing_warning subs) this) sd ed g = req"
    unfolding req_def by (rule subscriptionRequest_credentials) simp
  have ch: "chunkRequests cfg (map req subs) = Inr (map (map req) bs)"
    by (simp add: chunkRequests_map assms(3))
  have eq: "this' = (Inr (concat (concat (fst (await_chunks sched (map (map req) bs) this2)))),
      emit [ConsoleTimeEnd (console_timeEnd_label cfg)]
        (snd (await_chunks sched (map (map req) bs) this2)))"
    using assms(2)
    by (simp add: this'_def getDataFromConsumptionManagement_def gs
        createSubscriptionRequests_def r ch split_beta this2_def Let_def)
  show "fst this' = Inr (concat (map (\<lambda>s. outcome (req s)) (concat bs)))"
    by (simp add: eq await_chunks_fst map_concat comp_def)
  obtain new where "trace (snd (await_chunks sched (map (map req) bs) this2)) = trace this2 @ new"
    and "batched req bs new"
    using await_chunks_batched [of sched req bs this2] by blast
  then show "\<exists>new. batched req bs new \<and>
           trace (snd this') = trace this @ listing_warning subs @
             [LoggerDebug (chunks_debug_message cfg), ConsoleTime (console_time_label cfg)] @
             new @ [ConsoleTimeEnd (console_timeEnd_label cfg)]"
    by (auto simp: eq this2_def)
qed

lemma advisor_structure:
  fixes advisor sched
  assumes "fst (getSubscriptions listSubscriptions this) = Inr subs"
  defines "req \<equiv> recommendationRequest advisor this"
  defines "this' \<equiv> getDataFromAdvisorManagement listSubscriptions advisor sched this"
  shows "fst this' = Inr (concat (map (\<lambda>s. outcome (req s)) subs))"
    and "\<exists>order. mset order = mset subs \<and>
           trace (snd this') = trace this @ listing_warning subs @
             concat (map (\<lambda>s. issue (req s)) subs) @ concat (map (\<lambda>s. settle (req s)) order)"
proof -
  have gs: "getSubscriptions listSubscriptions this = (Inr subs, emit (listing_warning subs) this)"
    using assms(1) by (rule getSubscriptions_ok)
  have r: "recommendationRequest advisor (emit (listing_warning subs) this) = req"
    unfolding req_def by (rule recommendationRequest_credentials) simp
  have eq: "this' = (Inr (concat (fst (Promise_all sched (map req subs) (emit (listing_warning subs) this)))),
      snd (Promise_all sched (map req subs) (emit (listing_warning subs) this)))"
    by (simp add: this'_def getDataFromAdvisorManagement_def gs
        r split_beta)
  show "fst this' = Inr (concat (map (\<lambda>s. outcome (req s)) subs))"
    by (simp add: eq Promise_all_fst comp_def)
  show "\<exists>order. mset order = mset subs \<and>
           trace (snd this') = trace this @ listing_warning subs @
             concat (map (\<lambda>s. issue (req s)) subs) @ concat (map (\<lambda>s. settle (req s)) order)"
    using Promise_all_trace [of subs sched req "emit (listing_warning subs) this"]
    by (auto simp: eq)
qed

lemma emitted_append: "trace this' = trace this @ new \<Longrightarrow> emitted this this' = new"
  by (simp add: emitted_def)

lemma calls_append: "calls (xs @ ys) = calls xs @ calls ys"
  by (simp add: calls_def)

lemma calls_listing_warning: "calls (listing_warning subs) = []"
  by (simp add: calls_def listing_warning_def)

lemma calls_sequential:
  "calls (concat (map (\<lambda>s. issue (subscriptionRequest consumption this sd ed g s) @
                           settle (subscriptionRequest consumption this sd ed g s)) subs)) =
   concat (map (\<lambda>s. [CallStart (subscriptionId s), CallEnd (subscriptionId s)]) subs)"
  by (induction subs) (simp_all add: calls_def subscriptionRequest_def split: sum.splits)

lemma hwm_sequential:
  "foldl hwm_step (0, h)
     (concat (map (\<lambda>s. [CallStart (subscriptionId s), CallEnd (subscriptionId s)]) subs)) =
   (0, if subs = [] then h else max h 1)"
  by (induction subs arbitrary: h) (simp_all add: max.assoc)

lemma listing_cases:
  obtains (failed) e where "getSubscriptions listSubscriptions this = (Inl e, this)"
  | (listed) subs where "fst (getSubscriptions listSubscriptions this) = Inr subs"
  by (cases "fst (getSubscriptions listSubscriptions this)")
     (auto simp: getSubscriptions_def split: option.splits sum.splits)

lemma consumption_trace_sequential_calls:
  assumes "fst (getSubscriptions listSubscriptions this) = Inr subs"
    and "truthy (CONSUMPTION_CHUNKS_DAYS cfg)"
  shows "calls (emitted this (snd (getDataFromConsumptionManagement listSubscriptions consumption
            cfg sched sd ed g this))) =
         concat (map (\<lambda>s. [CallStart (subscriptionId s), CallEnd (subscriptionId s)]) subs)"
  using consumption_sequential(2) [OF assms, of consumption sched sd ed g]
  by (simp add: emitted_def calls_append calls_listing_warning calls_sequential)


lemma calls_issues:
  "calls (concat (map (\<lambda>s. issue (subscriptionRequest consumption this sd ed g s)) subs)) =
   map (\<lambda>s. CallStart (subscriptionId s)) subs"
  by (induction subs) (simp_all add: calls_def subscriptionRequest_def)

lemma calls_settles:
  "calls (concat (map (\<lambda>s. settle (subscriptionRequest consumption this sd ed g s)) subs)) =
   map (\<lambda>s. CallEnd (subscriptionId s)) subs"
  by (induction subs) (simp_all add: calls_def subscriptionRequest_def split: sum.splits)

lemma calls_batched_frame:
  "calls (listing_warning subs @ [LoggerDebug d, ConsoleTime t] @ new @ [ConsoleTimeEnd t']) =
   calls new"
  by (simp add: calls_def listing_warning_def)

lemma chunkRequests_Some:
  "SUBSCRIPTION_CHUNKS cfg = Some k \<Longrightarrow> 0 < k \<Longrightarrow>
   chunkRequests cfg xs = Inr (splitEvery_loop (nat k) xs 0 [])"
  by (simp add: chunkRequests_def splitEvery_def)

lemma chunkRequests_None:
  "SUBSCRIPTION_CHUNKS cfg = None \<Longrightarrow> chunkRequests cfg xs = Inr [xs]"
  by (simp add: chunkRequests_def)

lemma batches_run_batched:
  "batched (subscriptionRequest consumption this sd ed g) bs new \<Longrightarrow>
   batches_run (map (map subscriptionId) bs) (calls new)"
proof (induction bs arbitrary: new)
  case Nil
  then show ?case by (simp add: calls_def)
next
  case (Cons b bs)
  let ?req = "subscriptionRequest consumption this sd ed g"
  from Cons.prems have "\<exists>order rest. mset order = mset b \<and>
      new = concat (map (\<lambda>x. issue (?req x)) b) @ concat (map (\<lambda>x. settle (?req x)) order) @ rest \<and>
      batched ?req bs rest"
    by simp
  then obtain order rest where o: "mset order = mset b"
    and n: "new = concat (map (\<lambda>x. issue (?req x)) b) @
              concat (map (\<lambda>x. settle (?req x)) order) @ rest"
    and r: "batched ?req bs rest"
    by blast
  have len: "length order = length b" using o by (rule mset_eq_length)
  have c: "calls new = map (\<lambda>s. CallStart (subscriptionId s)) b @
      map (\<lambda>s. CallEnd (subscriptionId s)) order @ calls rest"
    by (simp add: n calls_append calls_issues calls_settles)
  have m: "mset (map (\<lambda>s. CallEnd (subscriptionId s)) order) =
      mset (map (\<lambda>s. CallEnd (subscriptionId s)) b)"
    using o by (metis mset_map)
  have 1: "take (length b) (calls new) = map CallStart (map subscriptionId b)"
    by (simp add: c comp_def)
  have 2: "mset (take (length b) (drop (length b) (calls new))) =
      mset (map CallEnd (map subscriptionId b))"
    using m by (simp add: c len comp_def)
  have 3: "drop (2 * length b) (calls new) = calls rest"
    by (simp add: c len)
  show ?case
    using 1 2 3 Cons.IH [OF r] by simp
qed

lemma starts_batched:
  "batched (subscriptionRequest consumption this sd ed g) bs new \<Longrightarrow>
   filter is_start (calls new) = map (\<lambda>s. CallStart (subscriptionId s)) (concat bs)"
proof (induction bs arbitrary: new)
  case Nil
  then show ?case by (simp add: calls_def)
next
  case (Cons b bs)
  let ?req = "subscriptionRequest consumption this sd ed g"
  from Cons.prems have "\<exists>order rest. mset order = mset b \<and>
      new = concat (map (\<lambda>x. issue (?req x)) b) @ concat (map (\<lambda>x. settle (?req x)) order) @ rest \<and>
      batched ?req bs rest"
    by simp
  then obtain order rest where
    n: "new = concat (map (\<lambda>x. issue (?req x)) b) @
              concat (map (\<lambda>x. settle (?req x)) order) @ rest"
    and r: "batched ?req bs rest"
    by blast
  have c: "calls new = map (\<lambda>s. CallStart (subscriptionId s)) b @
      map (\<lambda>s. CallEnd (subscriptionId s)) order @ calls rest"
    by (simp add: n calls_append calls_issues calls_settles)
  have "filter is_start (map (\<lambda>s. CallStart (subscriptionId s)) b) =
        map (\<lambda>s. CallStart (subscriptionId s)) b"
    by (induction b) simp_all
  moreover have "filter is_start (map (\<lambda>s. CallEnd (subscriptionId s)) order) = []"
    by (induction order) simp_all
  ultimately show ?case
    using Cons.IH [OF r] by (simp add: c)
qed

lemma barrier_monitor_rejects_overlap:
  "\<not> batch_barrier_respected 2 [CallStart ''A'', CallStart ''B'', CallStart ''C'']"
  by (simp add: batch_barrier_respected_def)

lemma batches_run_rejects_other_order:
  "\<not> batches_run [[''A'', ''B''], [''C'']]
       [CallStart ''C'', CallStart ''B'', CallEnd ''B'', CallEnd ''C'', CallStart ''A'', CallEnd ''A'']"
  by simp

lemma outcome_subscriptionRequest:
  "outcome (subscriptionRequest consumption this sd ed g s) =
     (case consumption (credentials this) (subscriptionId s) sd ed g of Inl e \<Rightarrow> [] | Inr rs \<Rightarrow> rs)"
  by (simp add: subscriptionRequest_def getDataForSubscription_def split: sum.splits)

lemma outcome_recommendationRequest:
  "outcome (recommendationRequest advisor this s) =
     (case advisor (credentials this) (subscriptionId s) of Inl e \<Rightarrow> [] | Inr rs \<Rightarrow> rs)"
  by (simp add: recommendationRequest_def getRecommendationsForSubscription_def split: sum.splits)

lemma consumption_result:
  assumes "fst (getSubscriptions listSubscriptions this) = Inr subs" and "batch_size_ok cfg"
  shows "fst (getDataFromConsumptionManagement listSubscriptions consumption cfg sched sd ed g this) =
         Inr (concat (map (\<lambda>s. case consumption (credentials this) (subscriptionId s) sd ed g of
                                 Inl e \<Rightarrow> [] | Inr rs \<Rightarrow> rs) subs))"
proof (cases "truthy (CONSUMPTION_CHUNKS_DAYS cfg)")
  case True
  show ?thesis
    using consumption_sequential(1) [OF assms(1) True,
        where consumption = consumption and sched = sched and sd = sd and ed = ed and g = g]
    by (simp add: outcome_subscriptionRequest)
next
  case False
  obtain bs where bs: "chunkRequests cfg subs = Inr bs" and c: "concat bs = subs"
    using chunkRequests_ok [OF assms(2), of subs] by blast
  show ?thesis
    using consumption_batched(1) [OF assms(1) False bs,
        where consumption = consumption and sched = sched and sd = sd and ed = ed and g = g]
    by (simp add: outcome_subscriptionRequest c)
qed

lemma advisor_result:
  assumes "fst (getSubscriptions listSubscriptions this) = Inr subs"
  shows "fst (getDataFromAdvisorManagement listSubscriptions advisor sched this) =
         Inr (concat (map (\<lambda>s. case advisor (credentials this) (subscriptionId s) of
                                 Inl e \<Rightarrow> [] | Inr rs \<Rightarrow> rs) subs))"
  using advisor_structure(1) [OF assms, where advisor = advisor and sched = sched]
  by (simp add: outcome_recommendationRequest)

lemma batched_events:
  "batched f bs es \<Longrightarrow> x \<in> set (concat bs) \<Longrightarrow>
   set (issue (f x)) \<union> set (settle (f x)) \<subseteq> set es"
proof (induction bs arbitrary: es)
  case Nil
  then show ?case by simp
next
  case (Cons b bs)
  from Cons.prems(1) obtain order rest where o: "mset order = mset b"
    and es: "es = concat (map (\<lambda>x. issue (f x)) b) @ concat (map (\<lambda>x. settle (f x)) order) @ rest"
    and rest: "batched f bs rest"
    by auto
  have so: "set order = set b" using o by (rule mset_eq_setD)
  show ?case
  proof (cases "x \<in> set b")
    case True
    then show ?thesis unfolding es using so by auto
  next
    case False
    then have "x \<in> set (concat bs)" using Cons.prems(2) by simp
    from Cons.IH [OF rest this] show ?thesis unfolding es by auto
  qed
qed

lemma consumption_events:
  assumes "fst (getSubscriptions listSubscriptions this) = Inr subs" and "batch_size_ok cfg"
    and "s \<in> set subs"
  shows "set (issue (subscriptionRequest consumption this sd ed g s)) \<union>
         set (settle (subscriptionRequest consumption this sd ed g s)) \<subseteq>
         set (emitted this (snd (getDataFromConsumptionManagement listSubscriptions consumption
                cfg sched sd ed g this)))"
proof (cases "truthy (CONSUMPTION_CHUNKS_DAYS cfg)")
  case True
  show ?thesis
    using consumption_sequential(2) [OF assms(1) True,
        where consumption = consumption and sched = sched and sd = sd and ed = ed and g = g]
      assms(3)
    by (auto simp: emitted_def)
next
  case False
  obtain bs where bs: "chunkRequests cfg subs = Inr bs" and c: "concat bs = subs"
    using chunkRequests_ok [OF assms(2), of subs] by blast
  obtain new where new: "batched (subscriptionRequest consumption this sd ed g) bs new"
    and tr: "trace (snd (getDataFromConsumptionManagement listSubscriptions consumption
              cfg sched sd ed g this)) = trace this @ (listing_warning subs @
             [LoggerDebug (chunks_debug_message cfg), ConsoleTime (console_time_label cfg)] @
             new @ [ConsoleTimeEnd (console_timeEnd_label cfg)])"
    using consumption_batched(2) [OF assms(1) False bs,
        where consumption = consumption and sched = sched and sd = sd and ed = ed and g = g]
    by blast
  have "s \<in> set (concat bs)" using c assms(3) by simp
  from batched_events [OF new this] show ?thesis
    unfolding emitted_append [OF tr] by auto
qed

lemma advisor_events:
  assumes "fst (getSubscriptions listSubscriptions this) = Inr subs" and "s \<in> set subs"
  shows "set (issue (recommendationRequest advisor this s)) \<union>
         set (settle (recommendationRequest advisor this s)) \<subseteq>
         set (emitted this (snd (getDataFromAdvisorManagement listSubscriptions advisor sched this)))"
proof -
  obtain order where o: "mset order = mset subs"
    and tr: "trace (snd (getDataFromAdvisorManagement listSubscriptions advisor sched this)) =
       trace this @ (listing_warning subs @
         concat (map (\<lambda>s. issue (recommendationRequest advisor this s)) subs) @
         concat (map (\<lambda>s. settle (recommendationRequest advisor this s)) order))"
    using advisor_structure(2) [OF assms(1), where advisor = advisor and sched = sched] by blast
  have "set order = set subs" using o by (rule mset_eq_setD)
  then show ?thesis
    unfolding emitted_append [OF tr] using assms(2) by auto
qed

lemma consumption_debug_line:
  assumes "fst (getSubscriptions listSubscriptions this) = Inr subs"
    and "\<not> truthy (CONSUMPTION_CHUNKS_DAYS cfg)" and "batch_size_ok cfg"
  shows "LoggerDebug (chunks_debug_message cfg)
           \<in> set (emitted this (snd (getDataFromConsumptionManagement listSubscriptions consumption
                  cfg sched sd ed g this)))"
proof -
  obtain bs where bs: "chunkRequests cfg subs = Inr bs"
    using chunkRequests_ok [OF assms(3), of subs] by blast
  show ?thesis
    using consumption_batched(2) [OF assms(1,2) bs,
        where consumption = consumption and sched = sched and sd = sd and ed = ed and g = g]
    by (auto simp: emitted_def)
qed


subsection \<open>The model at work\<close>

text \<open>
  Two subscriptions per batch, three subscriptions, the query for B rejected, and a
  scheduler that lets the last query issued come back first: B comes back before A, and C
  is only issued once both are back. Then the behaviour on a negative batch size, and a
  whole trace, log lines included.
\<close>

lemma completion_order_is_the_schedulers:
  "calls (emitted account0 (snd (getDataFromConsumptionManagement
       (\<lambda>k. Inr [sub ''A'', sub ''B'', sub ''C'']) usage_rows_B_fails
       \<lparr>CONSUMPTION_CHUNKS_DAYS = None, SUBSCRIPTION_CHUNKS = Some 2\<rparr> last_first 0 1 () account0))) =
   [CallStart ''A'', CallStart ''B'', CallEnd ''B'', CallEnd ''A'', CallStart ''C'', CallEnd ''C'']"
  by (simp add: getDataFromConsumptionManagement_def getSubscriptions_def account0_def sub_def
      createSubscriptionRequests_def subscriptionRequest_def getDataForSubscription_def
      usage_rows_B_fails_def chunkRequests_def splitEvery_def splitEvery_loop.simps slice_def
      emit_def Promise_all_def settle_all.simps last_first_def remove_nth_def emitted_def
      calls_def Let_def)

lemma negative_batch_size_is_rejected:
  "fst (getDataFromConsumptionManagement (\<lambda>k. Inr [sub ''A'']) usage_rows
       \<lparr>CONSUMPTION_CHUNKS_DAYS = None, SUBSCRIPTION_CHUNKS = Some (- 1)\<rparr> last_first 0 1 () account0) =
   Inl (Error ''First argument to splitEvery must be a positive integer'')"
  by (simp add: getDataFromConsumptionManagement_def getSubscriptions_def account0_def
      chunkRequests_def splitEvery_def)

lemma full_trace_example:
  "trace (snd (getDataFromConsumptionManagement
       (\<lambda>k. Inr [sub ''A'', sub ''B'']) usage_rows_B_fails
       \<lparr>CONSUMPTION_CHUNKS_DAYS = None, SUBSCRIPTION_CHUNKS = None\<rparr> last_first 0 1 () account0)) =
   [LoggerDebug ''Fetching Azure consumption data with undefined} 1} chunk(s)'',
    ConsoleTime ''Azure Subscriptions: undefined chunk(s)'',
    LoggerInfo ''Getting data for Subscription A...'', CallStart ''A'',
    LoggerInfo ''Getting data for Subscription B...'', CallStart ''B'',
    CallEnd ''B'', LoggerWarn ''Unable to get estimate data for Azure subscription B: throttled'',
    CallEnd ''A'',
    ConsoleTimeEnd ''Azure Subscriptions: 1 chunk(s)'']"
  by (simp add: getDataFromConsumptionManagement_def getSubscriptions_def account0_def sub_def
      createSubscriptionRequests_def subscriptionRequest_def getDataForSubscription_def
      usage_rows_B_fails_def chunkRequests_def
      emit_def Promise_all_def settle_all.simps last_first_def remove_nth_def
      chunks_debug_message_def console_time_label_def console_timeEnd_label_def or_one_def
      String_number_def String_nat.simps digit_def Let_def)
subsection \<open>Sequential execution when chunking by day\<close>

text \<open>
  C3. When \<^verbatim>\<open>AZURE.CONSUMPTION_CHUNKS_DAYS\<close> is truthy,
  \<^verbatim>\<open>getDataFromConsumptionManagement\<close> runs the per-subscription fetches strictly one at
  a time: the instrumented client never sees more than one query in flight, and when the
  listing succeeds the queries of the trace are, subscription by subscription in list
  order, a start directly followed by its end (so the high-water mark is 1 as soon as there
  is a subscription).
\<close>

theorem chunk_by_day_one_at_a_time:
  assumes "truthy (CONSUMPTION_CHUNKS_DAYS cfg)"
  shows "high_water_mark (emitted this (snd (getDataFromConsumptionManagement listSubscriptions
            consumption cfg sched sd ed g this))) \<le> 1 \<and>
         (\<forall>subs. fst (getSubscriptions listSubscriptions this) = Inr subs \<longrightarrow>
            calls (emitted this (snd (getDataFromConsumptionManagement listSubscriptions
              consumption cfg sched sd ed g this))) =
              concat (map (\<lambda>s. [CallStart (subscriptionId s), CallEnd (subscriptionId s)]) subs) \<and>
            high_water_mark (emitted this (snd (getDataFromConsumptionManagement listSubscriptions
              consumption cfg sched sd ed g this))) = (if subs = [] then 0 else 1))"
proof -
  let ?E = "emitted this (snd (getDataFromConsumptionManagement listSubscriptions
            consumption cfg sched sd ed g this))"
  have seq: "calls ?E =
        concat (map (\<lambda>s. [CallStart (subscriptionId s), CallEnd (subscriptionId s)]) subs) \<and>
      high_water_mark ?E = (if subs = [] then 0 else 1)"
    if "fst (getSubscriptions listSubscriptions this) = Inr subs" for subs
  proof -
    have c: "calls ?E =
        concat (map (\<lambda>s. [CallStart (subscriptionId s), CallEnd (subscriptionId s)]) subs)"
      using that assms by (rule consumption_trace_sequential_calls)
    have "high_water_mark ?E = snd (foldl hwm_step (0, 0) (calls ?E))"
      by (simp add: high_water_mark_def hwm_calls)
    then show ?thesis
      unfolding c by (simp add: hwm_sequential)
  qed
  have "high_water_mark ?E \<le> 1"
  proof (cases rule: listing_cases [of listSubscriptions this])
    case (failed e)
    then show ?thesis
      by (simp add: getDataFromConsumptionManagement_def emitted_def high_water_mark_def)
  next
    case (listed subs)
    then show ?thesis using seq [of subs] by simp
  qed
  then show ?thesis using seq by blast
qed

theorem chunk_by_day_one_at_a_time_witness:
  "truthy (CONSUMPTION_CHUNKS_DAYS \<lparr>CONSUMPTION_CHUNKS_DAYS = Some 1, SUBSCRIPTION_CHUNKS = Some 2\<rparr>) \<and>
   calls (emitted account0 (snd (getDataFromConsumptionManagement
       (\<lambda>k. Inr [sub ''A'', sub ''B'', sub ''C'']) usage_rows
       \<lparr>CONSUMPTION_CHUNKS_DAYS = Some 1, SUBSCRIPTION_CHUNKS = Some 2\<rparr> last_first 0 1 () account0))) =
     [CallStart ''A'', CallEnd ''A'', CallStart ''B'', CallEnd ''B'', CallStart ''C'', CallEnd ''C''] \<and>
   high_water_mark (emitted account0 (snd (getDataFromConsumptionManagement
       (\<lambda>k. Inr [sub ''A'', sub ''B'', sub ''C'']) usage_rows
       \<lparr>CONSUMPTION_CHUNKS_DAYS = Some 1, SUBSCRIPTION_CHUNKS = Some 2\<rparr> last_first 0 1 () account0))) = 1"
  using chunk_by_day_one_at_a_time [of
      "\<lparr>CONSUMPTION_CHUNKS_DAYS = Some 1, SUBSCRIPTION_CHUNKS = Some 2\<rparr>" account0
      "\<lambda>k. Inr [sub ''A'', sub ''B'', sub ''C'']" usage_rows last_first 0 1 "()"]
  by (simp add: getSubscriptions_def account0_def sub_def)

subsection \<open>Batches of subscriptions and the barrier between them\<close>

text \<open>
  C4. When \<^verbatim>\<open>AZURE.CONSUMPTION_CHUNKS_DAYS\<close> is falsy and
  \<^verbatim>\<open>AZURE.SUBSCRIPTION_CHUNKS\<close> is a positive integer \<open>k\<close>, the task list is cut into
  consecutive batches of \<open>k\<close> tasks, the last one possibly shorter (sizes 2, 2, 1 for
  \<open>k = 2\<close> and five subscriptions), which put together give the task list back; no query
  of a batch is issued before every query of the batches before it has come back; and at
  most \<open>k\<close> queries are in flight at any time (exactly \<open>min k n\<close> at the peak).
  The batches that run are these chunks of the subscription list: the chunked requests are
  the requests of the chunks of the list, the queries of the trace are, chunk after chunk,
  the starts of the chunk's subscriptions in list order followed by their ends, and so the
  queries are issued in the order of the subscription list.
\<close>

theorem subscription_chunks_batches_and_barrier:
  assumes "\<not> truthy (CONSUMPTION_CHUNKS_DAYS cfg)" and "SUBSCRIPTION_CHUNKS cfg = Some k" and "0 < k"
    and "fst (getSubscriptions listSubscriptions this) = Inr subs"
  shows "map_sum id (map length)
           (chunkRequests cfg (createSubscriptionRequests consumption this subs sd ed g)) =
           Inr (batch_sizes (nat k) (length subs)) \<and>
         map_sum id concat
           (chunkRequests cfg (createSubscriptionRequests consumption this subs sd ed g)) =
           Inr (createSubscriptionRequests consumption this subs sd ed g) \<and>
         batch_barrier_respected (nat k)
           (emitted this (snd (getDataFromConsumptionManagement listSubscriptions consumption
              cfg sched sd ed g this))) \<and>
         high_water_mark
           (emitted this (snd (getDataFromConsumptionManagement listSubscriptions consumption
              cfg sched sd ed g this))) = min (nat k) (length subs) \<and>
         chunkRequests cfg (createSubscriptionRequests consumption this subs sd ed g) =
           Inr (map (map (subscriptionRequest consumption this sd ed g))
                  (splitEvery_loop (nat k) subs 0 [])) \<and>
         batches_run (map (map subscriptionId) (splitEvery_loop (nat k) subs 0 []))
           (calls (emitted this (snd (getDataFromConsumptionManagement listSubscriptions consumption
              cfg sched sd ed g this)))) \<and>
         filter is_start
           (calls (emitted this (snd (getDataFromConsumptionManagement listSubscriptions consumption
              cfg sched sd ed g this)))) = map (\<lambda>s. CallStart (subscriptionId s)) subs"
proof -
  let ?E = "emitted this (snd (getDataFromConsumptionManagement listSubscriptions consumption
              cfg sched sd ed g this))"
  let ?req = "subscriptionRequest consumption this sd ed g"
  let ?requests = "createSubscriptionRequests consumption this subs sd ed g"
  define bs where "bs = splitEvery_loop (nat k) subs 0 []"
  have k: "0 < nat k" using assms(3) by simp
  have ch: "chunkRequests cfg xs = Inr (splitEvery_loop (nat k) xs 0 [])" for xs :: "'x list"
    using assms(2,3) by (rule chunkRequests_Some)
  have sizes: "map length (splitEvery_loop (nat k) xs 0 []) = batch_sizes (nat k) (length xs)"
    for xs :: "'x list"
    using splitEvery_loop_lengths [OF k, of xs 0 "[]"] by simp
  have whole: "concat (splitEvery_loop (nat k) xs 0 []) = xs" for xs :: "'x list"
    using splitEvery_loop_concat [OF k, of xs 0 "[]"] by simp
  have 1: "map_sum id (map length) (chunkRequests cfg ?requests) =
      Inr (batch_sizes (nat k) (length subs))"
    by (simp add: ch sizes createSubscriptionRequests_def)
  have 2: "map_sum id concat (chunkRequests cfg ?requests) = Inr ?requests"
    by (simp add: ch whole)
  have "chunkRequests cfg subs = Inr bs"
    unfolding bs_def by (rule ch)
  from consumption_batched(2) [OF assms(4,1) this,
      where consumption = consumption and sched = sched and sd = sd and ed = ed and g = g]
  obtain new where new: "batched ?req bs new"
    and tr: "trace (snd (getDataFromConsumptionManagement listSubscriptions consumption
              cfg sched sd ed g this)) = trace this @ (listing_warning subs @
             [LoggerDebug (chunks_debug_message cfg), ConsoleTime (console_time_label cfg)] @
             new @ [ConsoleTimeEnd (console_timeEnd_label cfg)])"
    by blast
  have E: "?E = listing_warning subs @
             [LoggerDebug (chunks_debug_message cfg), ConsoleTime (console_time_label cfg)] @
             new @ [ConsoleTimeEnd (console_timeEnd_label cfg)]"
    using tr by (rule emitted_append)
  have c: "calls ?E = calls new"
    unfolding E by (rule calls_batched_frame)
  have single: "\<forall>b \<in> set bs. \<forall>x \<in> set b. single_query (?req x)"
    by (simp add: single_query_subscriptionRequest)
  have "foldl hwm_step (0, 0) ?E = foldl hwm_step (0, 0) new"
    using c by (metis hwm_calls)
  also have "\<dots> = (0, foldl max 0 (map length bs))"
    using new single by (rule hwm_batched)
  finally have 4: "high_water_mark ?E = min (nat k) (length subs)"
    by (simp add: high_water_mark_def bs_def sizes foldl_max_batch_sizes [OF k])
  have lens: "map length bs = replicate (length subs div nat k) (nat k) @
      (if length subs mod nat k = 0 then [] else [length subs mod nat k])"
    by (simp add: bs_def sizes batch_sizes_def)
  have "foldl (barrier_step (nat k)) (0, 0, True) ?E = foldl (barrier_step (nat k)) (0, 0, True) new"
    using c by (metis barrier_calls)
  also have "\<dots> = (length (concat bs), length (concat bs), True)"
    using barrier_batched [OF k _ new single lens, of 0 True] k by simp
  finally have 3: "batch_barrier_respected (nat k) ?E"
    by (simp add: batch_barrier_respected_def)
  have 5: "chunkRequests cfg ?requests = Inr (map (map ?req) (splitEvery_loop (nat k) subs 0 []))"
    using splitEvery_loop_map [of "nat k" ?req subs 0 "[]"]
    by (simp add: ch createSubscriptionRequests_def)
  have 6: "batches_run (map (map subscriptionId) (splitEvery_loop (nat k) subs 0 [])) (calls ?E)"
    using batches_run_batched [OF new] by (simp add: c bs_def)
  have 7: "filter is_start (calls ?E) = map (\<lambda>s. CallStart (subscriptionId s)) subs"
    using starts_batched [OF new] by (simp add: c bs_def whole)
  show ?thesis using 1 2 3 4 5 6 7 by blast
qed


theorem subscription_chunks_batches_and_barrier_witness:
  "\<not> truthy (CONSUMPTION_CHUNKS_DAYS \<lparr>CONSUMPTION_CHUNKS_DAYS = None, SUBSCRIPTION_CHUNKS = Some 2\<rparr>) \<and>
   map_sum id (map length)
     (chunkRequests \<lparr>CONSUMPTION_CHUNKS_DAYS = None, SUBSCRIPTION_CHUNKS = Some 2\<rparr>
        (createSubscriptionRequests usage_rows_B_fails account0
           [sub ''A'', sub ''B'', sub ''C'', sub ''D'', sub ''E''] 0 1 ())) = Inr [2, 2, 1] \<and>
   batch_barrier_respected 2
     (emitted account0 (snd (getDataFromConsumptionManagement
        (\<lambda>k. Inr [sub ''A'', sub ''B'', sub ''C'', sub ''D'', sub ''E'']) usage_rows_B_fails
        \<lparr>CONSUMPTION_CHUNKS_DAYS = None, SUBSCRIPTION_CHUNKS = Some 2\<rparr> last_first 0 1 () account0))) \<and>
   high_water_mark
     (emitted account0 (snd (getDataFromConsumptionManagement
        (\<lambda>k. Inr [sub ''A'', sub ''B'', sub ''C'', sub ''D'', sub ''E'']) usage_rows_B_fails
        \<lparr>CONSUMPTION_CHUNKS_DAYS = None, SUBSCRIPTION_CHUNKS = Some 2\<rparr> last_first 0 1 () account0))) = 2 \<and>
   batches_run [[''A'', ''B''], [''C'', ''D''], [''E'']]
     (calls (emitted account0 (snd (getDataFromConsumptionManagement
        (\<lambda>k. Inr [sub ''A'', sub ''B'', sub ''C'', sub ''D'', sub ''E'']) usage_rows_B_fails
        \<lparr>CONSUMPTION_CHUNKS_DAYS = None, SUBSCRIPTION_CHUNKS = Some 2\<rparr> last_first 0 1 () account0)))) \<and>
   filter is_start
     (calls (emitted account0 (snd (getDataFromConsumptionManagement
        (\<lambda>k. Inr [sub ''A'', sub ''B'', sub ''C'', sub ''D'', sub ''E'']) usage_rows_B_fails
        \<lparr>CONSUMPTION_CHUNKS_DAYS = None, SUBSCRIPTION_CHUNKS = Some 2\<rparr> last_first 0 1 () account0)))) =
     [CallStart ''A'', CallStart ''B'', CallStart ''C'', CallStart ''D'', CallStart ''E'']"
  using subscription_chunks_batches_and_barrier [where
      cfg = "\<lparr>CONSUMPTION_CHUNKS_DAYS = None, SUBSCRIPTION_CHUNKS = Some 2\<rparr>" and k = 2 and
      this = account0 and
      listSubscriptions = "\<lambda>k. Inr [sub ''A'', sub ''B'', sub ''C'', sub ''D'', sub ''E'']" and
      subs = "[sub ''A'', sub ''B'', sub ''C'', sub ''D'', sub ''E'']" and
      consumption = usage_rows_B_fails and sched = last_first and sd = 0 and ed = 1 and g = "()"]
  by (simp add: getSubscriptions_def account0_def batch_sizes_def sub_def
      splitEvery_loop.simps slice_def)


subsection \<open>No batch size: one batch of everything\<close>

text \<open>
  C7. When \<^verbatim>\<open>AZURE.SUBSCRIPTION_CHUNKS\<close> is unset and
  \<^verbatim>\<open>AZURE.CONSUMPTION_CHUNKS_DAYS\<close> is falsy, all tasks form one single batch: every
  query is issued, in list order, before any of them comes back, then each comes back once,
  and the number in flight peaks at the number of subscriptions.
\<close>

theorem unset_chunks_one_concurrent_batch:
  assumes "\<not> truthy (CONSUMPTION_CHUNKS_DAYS cfg)" and "SUBSCRIPTION_CHUNKS cfg = None"
    and "fst (getSubscriptions listSubscriptions this) = Inr subs"
  shows "chunkRequests cfg (createSubscriptionRequests consumption this subs sd ed g) =
           Inr [createSubscriptionRequests consumption this subs sd ed g] \<and>
         take (length subs)
           (calls (emitted this (snd (getDataFromConsumptionManagement listSubscriptions consumption
              cfg sched sd ed g this)))) = map (\<lambda>s. CallStart (subscriptionId s)) subs \<and>
         mset (drop (length subs)
           (calls (emitted this (snd (getDataFromConsumptionManagement listSubscriptions consumption
              cfg sched sd ed g this))))) = mset (map (\<lambda>s. CallEnd (subscriptionId s)) subs) \<and>
         high_water_mark
           (emitted this (snd (getDataFromConsumptionManagement listSubscriptions consumption
              cfg sched sd ed g this))) = length subs"
proof -
  let ?E = "emitted this (snd (getDataFromConsumptionManagement listSubscriptions consumption
              cfg sched sd ed g this))"
  let ?req = "subscriptionRequest consumption this sd ed g"
  have ch: "chunkRequests cfg xs = Inr [xs]" for xs :: "'x list"
    using assms(2) by (rule chunkRequests_None)
  from consumption_batched(2) [OF assms(3,1) ch,
      where consumption = consumption and sched = sched and sd = sd and ed = ed and g = g]
  obtain new where new: "batched ?req [subs] new"
    and tr: "trace (snd (getDataFromConsumptionManagement listSubscriptions consumption
              cfg sched sd ed g this)) = trace this @ (listing_warning subs @
             [LoggerDebug (chunks_debug_message cfg), ConsoleTime (console_time_label cfg)] @
             new @ [ConsoleTimeEnd (console_timeEnd_label cfg)])"
    by blast
  have E: "?E = listing_warning subs @
             [LoggerDebug (chunks_debug_message cfg), ConsoleTime (console_time_label cfg)] @
             new @ [ConsoleTimeEnd (console_timeEnd_label cfg)]"
    using tr by (rule emitted_append)
  from new have "\<exists>order. mset order = mset subs \<and>
      new = concat (map (\<lambda>s. issue (?req s)) subs) @ concat (map (\<lambda>s. settle (?req s)) order)"
    by simp
  then obtain order where o: "mset order = mset subs"
    and n: "new = concat (map (\<lambda>s. issue (?req s)) subs) @ concat (map (\<lambda>s. settle (?req s)) order)"
    by blast
  have "calls ?E = calls new"
    unfolding E by (rule calls_batched_frame)
  then have c: "calls ?E = map (\<lambda>s. CallStart (subscriptionId s)) subs @
      map (\<lambda>s. CallEnd (subscriptionId s)) order"
    by (simp add: n calls_append calls_issues calls_settles)
  have "mset (map (\<lambda>s. CallEnd (subscriptionId s)) order) =
        mset (map (\<lambda>s. CallEnd (subscriptionId s)) subs)"
    using o by (metis mset_map)
  then have 23: "take (length subs) (calls ?E) = map (\<lambda>s. CallStart (subscriptionId s)) subs \<and>
      mset (drop (length subs) (calls ?E)) = mset (map (\<lambda>s. CallEnd (subscriptionId s)) subs)"
    by (simp add: c)
  have single: "\<forall>b \<in> set [subs]. \<forall>x \<in> set b. single_query (?req x)"
    by (simp add: single_query_subscriptionRequest)
  have "foldl hwm_step (0, 0) ?E = foldl hwm_step (0, 0) new"
    using \<open>calls ?E = calls new\<close> by (metis hwm_calls)
  also have "\<dots> = (0, foldl max 0 (map length [subs]))"
    using new single by (rule hwm_batched)
  finally have 4: "high_water_mark ?E = length subs"
    by (simp add: high_water_mark_def)
  show ?thesis using ch 23 4 by blast
qed

theorem unset_chunks_one_concurrent_batch_witness:
  "\<not> truthy (CONSUMPTION_CHUNKS_DAYS \<lparr>CONSUMPTION_CHUNKS_DAYS = None, SUBSCRIPTION_CHUNKS = None\<rparr>) \<and>
   take 3 (calls (emitted account0 (snd (getDataFromConsumptionManagement
        (\<lambda>k. Inr [sub ''A'', sub ''B'', sub ''C'']) usage_rows
        \<lparr>CONSUMPTION_CHUNKS_DAYS = None, SUBSCRIPTION_CHUNKS = None\<rparr> last_first 0 1 () account0)))) =
     [CallStart ''A'', CallStart ''B'', CallStart ''C''] \<and>
   high_water_mark
     (emitted account0 (snd (getDataFromConsumptionManagement
        (\<lambda>k. Inr [sub ''A'', sub ''B'', sub ''C'']) usage_rows
        \<lparr>CONSUMPTION_CHUNKS_DAYS = None, SUBSCRIPTION_CHUNKS = None\<rparr> last_first 0 1 () account0))) = 3"
  using unset_chunks_one_concurrent_batch [where
      cfg = "\<lparr>CONSUMPTION_CHUNKS_DAYS = None, SUBSCRIPTION_CHUNKS = None\<rparr>" and
      this = account0 and
      listSubscriptions = "\<lambda>k. Inr [sub ''A'', sub ''B'', sub ''C'']" and
      subs = "[sub ''A'', sub ''B'', sub ''C'']" and
      consumption = usage_rows and sched = last_first and sd = 0 and ed = 1 and g = "()"]
  by (simp add: getSubscriptions_def account0_def sub_def eval_nat_numeral)

subsection \<open>Isolation of a failed subscription\<close>

text \<open>
  C1. Whatever the subscriptions and whichever of their queries fail, both
  \<^verbatim>\<open>getDataFromConsumptionManagement\<close> and \<^verbatim>\<open>getDataFromAdvisorManagement\<close>
  succeed, and the result is the flattening, in list order, of what each subscription
  returned, a failed one counting as the empty sequence (for A, B, C with B failing: the
  results of A, nothing, the results of C). Each failure is logged as a warning that
  carries the subscription id and the reason, and the query of every subscription of the
  list is still issued and comes back: a failure aborts neither its siblings nor the call.
  The listing itself is taken to have succeeded, and the configured batch size not to be
  negative.
\<close>

theorem failed_subscription_is_isolated:
  assumes "fst (getSubscriptions listSubscriptions this) = Inr subs" and "batch_size_ok cfg"
  shows "fst (getDataFromConsumptionManagement listSubscriptions consumption cfg sched sd ed g this) =
           Inr (concat (map (\<lambda>s. case consumption (credentials this) (subscriptionId s) sd ed g of
                                   Inl e \<Rightarrow> [] | Inr rs \<Rightarrow> rs) subs)) \<and>
         fst (getDataFromAdvisorManagement listSubscriptions advisor sched this) =
           Inr (concat (map (\<lambda>s. case advisor (credentials this) (subscriptionId s) of
                                   Inl e \<Rightarrow> [] | Inr rs \<Rightarrow> rs) subs)) \<and>
         (\<forall>s \<in> set subs. \<forall>e.
            consumption (credentials this) (subscriptionId s) sd ed g = Inl e \<longrightarrow>
            LoggerWarn (''Unable to get estimate data for Azure subscription '' @
              subscriptionId s @ '': '' @ message e)
            \<in> set (emitted this (snd (getDataFromConsumptionManagement listSubscriptions
                 consumption cfg sched sd ed g this)))) \<and>
         (\<forall>s \<in> set subs. \<forall>e.
            advisor (credentials this) (subscriptionId s) = Inl e \<longrightarrow>
            LoggerWarn (''Unable to get Advisor recommendations data for Azure subscription '' @
              subscriptionId s @ '': '' @ message e)
            \<in> set (emitted this (snd (getDataFromAdvisorManagement listSubscriptions
                 advisor sched this)))) \<and>
         (\<forall>s \<in> set subs.
            CallStart (subscriptionId s)
              \<in> set (emitted this (snd (getDataFromConsumptionManagement listSubscriptions
                   consumption cfg sched sd ed g this))) \<and>
            CallEnd (subscriptionId s)
              \<in> set (emitted this (snd (getDataFromConsumptionManagement listSubscriptions
                   consumption cfg sched sd ed g this))) \<and>
            CallStart (subscriptionId s)
              \<in> set (emitted this (snd (getDataFromAdvisorManagement listSubscriptions
                   advisor sched this))) \<and>
            CallEnd (subscriptionId s)
              \<in> set (emitted this (snd (getDataFromAdvisorManagement listSubscriptions
                   advisor sched this))))"
proof -
  let ?EC = "emitted this (snd (getDataFromConsumptionManagement listSubscriptions
                 consumption cfg sched sd ed g this))"
  let ?EA = "emitted this (snd (getDataFromAdvisorManagement listSubscriptions advisor sched this))"
  have ec: "set (issue (subscriptionRequest consumption this sd ed g s)) \<union>
         set (settle (subscriptionRequest consumption this sd ed g s)) \<subseteq> set ?EC"
    if "s \<in> set subs" for s
    using assms that by (rule consumption_events)
  have ea: "set (issue (recommendationRequest advisor this s)) \<union>
         set (settle (recommendationRequest advisor this s)) \<subseteq> set ?EA"
    if "s \<in> set subs" for s
    using assms(1) that by (rule advisor_events)
  have warn_c: "LoggerWarn (''Unable to get estimate data for Azure subscription '' @
              subscriptionId s @ '': '' @ message e) \<in> set ?EC"
    if "s \<in> set subs" "consumption (credentials this) (subscriptionId s) sd ed g = Inl e" for s e
    using ec [OF that(1)] that(2)
    by (simp add: subscriptionRequest_def getDataForSubscription_def)
  have warn_a: "LoggerWarn (''Unable to get Advisor recommendations data for Azure subscription '' @
              subscriptionId s @ '': '' @ message e) \<in> set ?EA"
    if "s \<in> set subs" "advisor (credentials this) (subscriptionId s) = Inl e" for s e
    using ea [OF that(1)] that(2)
    by (simp add: recommendationRequest_def getRecommendationsForSubscription_def)
  have run_c: "CallStart (subscriptionId s) \<in> set ?EC \<and> CallEnd (subscriptionId s) \<in> set ?EC"
    if "s \<in> set subs" for s
    using ec [OF that] by (simp add: subscriptionRequest_def)
  have run_a: "CallStart (subscriptionId s) \<in> set ?EA \<and> CallEnd (subscriptionId s) \<in> set ?EA"
    if "s \<in> set subs" for s
    using ea [OF that] by (simp add: recommendationRequest_def)
  show ?thesis
    using consumption_result [OF assms, where consumption = consumption and sched = sched
        and sd = sd and ed = ed and g = g]
      advisor_result [OF assms(1), where advisor = advisor and sched = sched]
      warn_c warn_a run_c run_a
    by blast
qed

theorem failed_subscription_is_isolated_witness:
  "batch_size_ok \<lparr>CONSUMPTION_CHUNKS_DAYS = None, SUBSCRIPTION_CHUNKS = Some 2\<rparr> \<and>
   fst (getDataFromConsumptionManagement (\<lambda>k. Inr [sub ''A'', sub ''B'', sub ''C''])
          usage_rows_B_fails \<lparr>CONSUMPTION_CHUNKS_DAYS = None, SUBSCRIPTION_CHUNKS = Some 2\<rparr>
          last_first 0 1 () account0) = Inr [''A-1'', ''A-2'', ''C-1'', ''C-2''] \<and>
   fst (getDataFromAdvisorManagement (\<lambda>k. Inr [sub ''A'', sub ''B'', sub ''C''])
          advice_B_fails last_first account0) = Inr [''resize A'', ''resize C''] \<and>
   LoggerWarn ''Unable to get estimate data for Azure subscription B: throttled''
     \<in> set (emitted account0 (snd (getDataFromConsumptionManagement
          (\<lambda>k. Inr [sub ''A'', sub ''B'', sub ''C'']) usage_rows_B_fails
          \<lparr>CONSUMPTION_CHUNKS_DAYS = None, SUBSCRIPTION_CHUNKS = Some 2\<rparr>
          last_first 0 1 () account0))) \<and>
   LoggerWarn ''Unable to get Advisor recommendations data for Azure subscription B: forbidden''
     \<in> set (emitted account0 (snd (getDataFromAdvisorManagement
          (\<lambda>k. Inr [sub ''A'', sub ''B'', sub ''C'']) advice_B_fails last_first account0))) \<and>
   CallEnd ''C''
     \<in> set (emitted account0 (snd (getDataFromConsumptionManagement
          (\<lambda>k. Inr [sub ''A'', sub ''B'', sub ''C'']) usage_rows_B_fails
          \<lparr>CONSUMPTION_CHUNKS_DAYS = None, SUBSCRIPTION_CHUNKS = Some 2\<rparr>
          last_first 0 1 () account0)))"
  using failed_subscription_is_isolated [where
      cfg = "\<lparr>CONSUMPTION_CHUNKS_DAYS = None, SUBSCRIPTION_CHUNKS = Some 2\<rparr>" and
      this = account0 and
      listSubscriptions = "\<lambda>k. Inr [sub ''A'', sub ''B'', sub ''C'']" and
      subs = "[sub ''A'', sub ''B'', sub ''C'']" and
      consumption = usage_rows_B_fails and advisor = advice_B_fails and
      sched = last_first and sd = 0 and ed = 1 and g = "()"]
  by (simp add: getSubscriptions_def account0_def sub_def batch_size_ok_def
      usage_rows_B_fails_def advice_B_fails_def)


subsection \<open>Results in subscription-list order\<close>

text \<open>
  C2. When every per-subscription fetch succeeds, the output of
  \<^verbatim>\<open>getDataFromConsumptionManagement\<close> is the concatenation, in the order of the
  subscription list, of the rows of each subscription; the order in which the concurrently
  issued queries come back (the scheduler) does not change it. This holds for every
  subscription list, the non-empty ones in particular.
\<close>

theorem results_flattened_in_list_order:
  assumes "fst (getSubscriptions listSubscriptions this) = Inr subs" and "batch_size_ok cfg"
    and "\<forall>s \<in> set subs. consumption (credentials this) (subscriptionId s) sd ed g = Inr (rows s)"
  shows "fst (getDataFromConsumptionManagement listSubscriptions consumption cfg sched sd ed g this) =
           Inr (concat (map rows subs)) \<and>
         fst (getDataFromConsumptionManagement listSubscriptions consumption cfg sched' sd ed g this) =
           fst (getDataFromConsumptionManagement listSubscriptions consumption cfg sched sd ed g this)"
proof -
  have m: "map (\<lambda>s. case consumption (credentials this) (subscriptionId s) sd ed g of
                     Inl e \<Rightarrow> [] | Inr rs \<Rightarrow> rs) subs = map rows subs"
    using assms(3) by simp
  have "fst (getDataFromConsumptionManagement listSubscriptions consumption cfg sc sd ed g this) =
           Inr (concat (map rows subs))" for sc
    by (simp only: consumption_result [OF assms(1,2)] m)
  then show ?thesis by simp
qed

theorem results_flattened_in_list_order_witness:
  "batch_size_ok \<lparr>CONSUMPTION_CHUNKS_DAYS = None, SUBSCRIPTION_CHUNKS = Some 2\<rparr> \<and>
   fst (getDataFromConsumptionManagement (\<lambda>k. Inr [sub ''B'', sub ''A'', sub ''C''])
          usage_rows \<lparr>CONSUMPTION_CHUNKS_DAYS = None, SUBSCRIPTION_CHUNKS = Some 2\<rparr>
          last_first 0 1 () account0) = Inr [''B-1'', ''B-2'', ''A-1'', ''A-2'', ''C-1'', ''C-2''] \<and>
   fst (getDataFromConsumptionManagement (\<lambda>k. Inr [sub ''B'', sub ''A'', sub ''C''])
          usage_rows \<lparr>CONSUMPTION_CHUNKS_DAYS = None, SUBSCRIPTION_CHUNKS = Some 2\<rparr>
          (\<lambda>tr. 0) 0 1 () account0) =
   fst (getDataFromConsumptionManagement (\<lambda>k. Inr [sub ''B'', sub ''A'', sub ''C''])
          usage_rows \<lparr>CONSUMPTION_CHUNKS_DAYS = None, SUBSCRIPTION_CHUNKS = Some 2\<rparr>
          last_first 0 1 () account0)"
  using results_flattened_in_list_order [where
      cfg = "\<lparr>CONSUMPTION_CHUNKS_DAYS = None, SUBSCRIPTION_CHUNKS = Some 2\<rparr>" and
      this = account0 and
      listSubscriptions = "\<lambda>k. Inr [sub ''B'', sub ''A'', sub ''C'']" and
      subs = "[sub ''B'', sub ''A'', sub ''C'']" and
      consumption = usage_rows and rows = "\<lambda>s. [subscriptionId s @ ''-1'', subscriptionId s @ ''-2'']" and
      sched = last_first and sched' = "\<lambda>tr. 0" and sd = 0 and ed = 1 and g = "()"]
  by (simp add: getSubscriptions_def account0_def sub_def batch_size_ok_def usage_rows_def)


subsection \<open>No subscriptions\<close>



subsection \<open>Initialisation\<close>

text \<open>
  C6. If acquiring the credential or constructing the subscription client fails,
  \<^verbatim>\<open>initializeAccount\<close> fails with an error whose message is the fixed context
  followed by the message of the underlying failure; when both succeed it returns normally
  and has assigned the credential and the subscription client.
\<close>

theorem initializeAccount_wraps_the_reason:
  "(create = Inl e \<longrightarrow>
      fst (initializeAccount create newSubscriptionClient this) =
        Inl (Error (''Azure initializeAccount failed. Reason: '' @ message e))) \<and>
   (create = Inr c \<and> newSubscriptionClient c = Inl e \<longrightarrow>
      fst (initializeAccount create newSubscriptionClient this) =
        Inl (Error (''Azure initializeAccount failed. Reason: '' @ message e))) \<and>
   (create = Inr c \<and> newSubscriptionClient c = Inr k \<longrightarrow>
      fst (initializeAccount create newSubscriptionClient this) = Inr () \<and>
      credentials (snd (initializeAccount create newSubscriptionClient this)) = Some c \<and>
      subscriptionClient (snd (initializeAccount create newSubscriptionClient this)) = Some k)"
  by (simp add: initializeAccount_def)

theorem initializeAccount_wraps_the_reason_witness:
  "fst (initializeAccount (Inl (Error ''invalid client secret'')) (\<lambda>c. Inr (''client:'' @ c))
          \<lparr>credentials = None, subscriptionClient = None, trace = []\<rparr>) =
     Inl (Error ''Azure initializeAccount failed. Reason: invalid client secret'') \<and>
   fst (initializeAccount (Inr ''token'') (\<lambda>c. Inl (Error ''credentials cannot be null''))
          \<lparr>credentials = None, subscriptionClient = None, trace = []\<rparr>) =
     Inl (Error ''Azure initializeAccount failed. Reason: credentials cannot be null'') \<and>
   credentials (snd (initializeAccount (Inr ''token'') (\<lambda>c. Inr (''client:'' @ c))
          \<lparr>credentials = None, subscriptionClient = None, trace = []\<rparr>)) = Some ''token'' \<and>
   subscriptionClient (snd (initializeAccount (Inr ''token'') (\<lambda>c. Inr (''client:'' @ c))
          \<lparr>credentials = None, subscriptionClient = None, trace = []\<rparr>)) = Some ''client:token''"
  using initializeAccount_wraps_the_reason [where
      create = "Inl (Error ''invalid client secret'')" and e = "Error ''invalid client secret''" and
      newSubscriptionClient = "\<lambda>c. Inr (''client:'' @ c)" and
      this = "\<lparr>credentials = None, subscriptionClient = None, trace = []\<rparr>"]
    initializeAccount_wraps_the_reason [where
      create = "Inr ''token''" and c = "''token''" and e = "Error ''credentials cannot be null''" and
      newSubscriptionClient = "\<lambda>c. Inl (Error ''credentials cannot be null'')" and
      this = "\<lparr>credentials = None, subscriptionClient = None, trace = []\<rparr>"]
    initializeAccount_wraps_the_reason [where
      create = "Inr ''token''" and c = "''token''" and k = "''client:token''" and
      newSubscriptionClient = "\<lambda>c. Inr (''client:'' @ c)" and
      this = "\<lparr>credentials = None, subscriptionClient = None, trace = []\<rparr>"]
  by simp


subsection \<open>The credential and the client are only read\<close>

text \<open>
  C10. None of \<^verbatim>\<open>getSubscriptions\<close>, \<^verbatim>\<open>getDataFromAdvisorManagement\<close> and
  \<^verbatim>\<open>getDataFromConsumptionManagement\<close> changes the fields \<^verbatim>\<open>credentials\<close> and
  \<^verbatim>\<open>subscriptionClient\<close> of the instance, whatever the listing, the services, the
  configuration and the order in which the concurrent queries come back, and whether the
  operation returns or throws: after the operation both fields hold what they held before.
\<close>

theorem operations_only_read_credentials_and_client:
  "credentials (snd (getSubscriptions listSubscriptions this)) = credentials this \<and>
   subscriptionClient (snd (getSubscriptions listSubscriptions this)) = subscriptionClient this \<and>
   credentials (snd (getDataFromAdvisorManagement listSubscriptions advisor sched this)) =
     credentials this \<and>
   subscriptionClient (snd (getDataFromAdvisorManagement listSubscriptions advisor sched this)) =
     subscriptionClient this \<and>
   credentials (snd (getDataFromConsumptionManagement listSubscriptions consumption cfg sched
     sd ed g this)) = credentials this \<and>
   subscriptionClient (snd (getDataFromConsumptionManagement listSubscriptions consumption cfg sched
     sd ed g this)) = subscriptionClient this"
proof -
  obtain r this1 where gs: "getSubscriptions listSubscriptions this = (r, this1)"
    by (cases "getSubscriptions listSubscriptions this")
  have f1: "credentials this1 = credentials this \<and> subscriptionClient this1 = subscriptionClient this"
    using getSubscriptions_fields [of listSubscriptions this] by (simp add: gs)
  have adv: "credentials (snd (getDataFromAdvisorManagement listSubscriptions advisor sched this)) =
     credentials this \<and>
   subscriptionClient (snd (getDataFromAdvisorManagement listSubscriptions advisor sched this)) =
     subscriptionClient this"
    using f1
    by (cases r) (simp_all add: getDataFromAdvisorManagement_def gs split_beta Promise_all_fields)
  have con: "credentials (snd (getDataFromConsumptionManagement listSubscriptions consumption cfg sched
     sd ed g this)) = credentials this \<and>
   subscriptionClient (snd (getDataFromConsumptionManagement listSubscriptions consumption cfg sched
     sd ed g this)) = subscriptionClient this"
    using f1
    by (cases r)
       (simp_all add: getDataFromConsumptionManagement_def gs split_beta Let_def
          await_each_fields await_chunks_fields split: sum.splits)
  show ?thesis using f1 adv con by (simp add: gs)
qed


subsection \<open>The debug line about the chunk count\<close>

text \<open>
  C9. The claim is that the debug line logs the configured batch size, and one chunk when
  none is configured. The code at that line interpolates the raw setting and leaves the
  fragment \<^verbatim>\<open>} 1}\<close> in the text: with no batch size configured the line reads
  \<^verbatim>\<open>undefined} 1} chunk(s)\<close>, with a batch size of 10 it reads
  \<^verbatim>\<open>10} 1} chunk(s)\<close>, while the timer label written a few lines below falls back
  to 1 as intended.
\<close>

theorem chunk_count_debug_line_is_malformed:
  "LoggerDebug ''Fetching Azure consumption data with undefined} 1} chunk(s)''
     \<in> set (emitted account0 (snd (getDataFromConsumptionManagement (\<lambda>k. Inr [sub ''A''])
          usage_rows \<lparr>CONSUMPTION_CHUNKS_DAYS = None, SUBSCRIPTION_CHUNKS = None\<rparr>
          last_first 0 1 () account0))) \<and>
   chunks_debug_message \<lparr>CONSUMPTION_CHUNKS_DAYS = None, SUBSCRIPTION_CHUNKS = Some 10\<rparr> =
     ''Fetching Azure consumption data with 10} 1} chunk(s)'' \<and>
   console_timeEnd_label \<lparr>CONSUMPTION_CHUNKS_DAYS = None, SUBSCRIPTION_CHUNKS = None\<rparr> =
     ''Azure Subscriptions: 1 chunk(s)''"
proof -
  have "fst (getSubscriptions (\<lambda>k. Inr [sub ''A'']) account0) = Inr [sub ''A'']"
    by (simp add: getSubscriptions_def account0_def)
  from consumption_debug_line [OF this, where
      cfg = "\<lparr>CONSUMPTION_CHUNKS_DAYS = None, SUBSCRIPTION_CHUNKS = None\<rparr>" and
      consumption = usage_rows and sched = last_first and sd = 0 and ed = 1 and g = "()"]
  have "LoggerDebug ''Fetching Azure consumption data with undefined} 1} chunk(s)''
     \<in> set (emitted account0 (snd (getDataFromConsumptionManagement (\<lambda>k. Inr [sub ''A''])
          usage_rows \<lparr>CONSUMPTION_CHUNKS_DAYS = None, SUBSCRIPTION_CHUNKS = None\<rparr>
          last_first 0 1 () account0)))"
    by (simp add: batch_size_ok_def chunks_debug_message_def String_number_def)
  moreover have "chunks_debug_message \<lparr>CONSUMPTION_CHUNKS_DAYS = None, SUBSCRIPTION_CHUNKS = Some 10\<rparr> =
     ''Fetching Azure consumption data with 10} 1} chunk(s)''"
    by (simp add: chunks_debug_message_def String_number_def String_nat.simps digit_def)
  moreover have "console_timeEnd_label \<lparr>CONSUMPTION_CHUNKS_DAYS = None, SUBSCRIPTION_CHUNKS = None\<rparr> =
     ''Azure Subscriptions: 1 chunk(s)''"
    by (simp add: console_timeEnd_label_def or_one_def String_number_def String_nat.simps digit_def)
  ultimately show ?thesis by blast
qed

end
